theory Spec2Isabelle
  imports Main "HOL-Library.Word"
begin

unbundle bit_operations_syntax

section \<open>JavaScript values used by the chat client\<close>

text \<open>
  A JavaScript string is modelled as the list of its Unicode code points. The stream decoder
  only looks for line feeds, white space and the ASCII literals \<open>data:\<close> and \<open>[DONE]\<close>, all of
  which are single UTF-16 code units, so cutting and comparing on code points agrees with
  cutting and comparing on UTF-16 code units. A surrogate code unit that is not half of a
  pair is the code point of its own value, between D800 and DFFF.
\<close>

type_synonym jsstring = "nat list"

type_synonym byte = "8 word"

definition ascii :: "string \<Rightarrow> jsstring" where
  "ascii s = map of_char s"

text \<open>
  The white space of \<open>String.prototype.trim\<close>, \<open>trimEnd\<close> and of the regular expression
  class \<open>\s\<close>: ECMAScript WhiteSpace and LineTerminator.
\<close>

definition is_js_space :: "nat \<Rightarrow> bool" where
  "is_js_space c =
     (c = 9 \<or> c = 10 \<or> c = 11 \<or> c = 12 \<or> c = 13 \<or> c = 32 \<or> c = 160 \<or> c = 5760 \<or>
      (8192 \<le> c \<and> c \<le> 8202) \<or> c = 8232 \<or> c = 8233 \<or> c = 8239 \<or> c = 8287 \<or>
      c = 12288 \<or> c = 65279)"

definition trimEnd :: "jsstring \<Rightarrow> jsstring" where
  "trimEnd s = rev (dropWhile is_js_space (rev s))"

definition trim :: "jsstring \<Rightarrow> jsstring" where
  "trim s = trimEnd (dropWhile is_js_space s)"

definition startsWith :: "jsstring \<Rightarrow> jsstring \<Rightarrow> bool" where
  "startsWith s p = (take (length p) s = p)"

text \<open>
  \<open>s.split(sep)\<close> for a string separator: the separator is searched from the left, matches do
  not overlap, and the result is never empty when the separator is not the empty string.
\<close>

function js_split :: "jsstring \<Rightarrow> jsstring \<Rightarrow> jsstring list" where
  "js_split [] sep = (if sep = [] then [] else [[]])"
| "js_split (c # cs) sep =
     (if sep = [] then [c] # js_split cs sep
      else if startsWith (c # cs) sep then [] # js_split (drop (length sep) (c # cs)) sep
      else (case js_split cs sep of [] \<Rightarrow> [[c]] | p # ps \<Rightarrow> (c # p) # ps))"
  by pat_completeness auto
termination
  by (relation "measure (\<lambda>(s, sep). length s)") auto

text \<open>Decimal digits of a number, as a template literal prints \<open>res.status\<close>.\<close>

fun decimal :: "nat \<Rightarrow> jsstring" where
  "decimal n = (if n < 10 then [48 + n] else decimal (n div 10) @ [48 + n mod 10])"

declare decimal.simps [simp del]

text \<open>
  A parsed JSON value (\<open>any\<close> in the TypeScript types). Numbers are abstracted to integers:
  the client only tests whether a value is a string and whether it is truthy.
\<close>

datatype json =
    JNull
  | JBool bool
  | JNum int
  | JStr jsstring
  | JArr "json list"
  | JObj "(jsstring \<times> json) list"

fun truthy :: "json \<Rightarrow> bool" where
  "truthy JNull = False"
| "truthy (JBool b) = b"
| "truthy (JNum n) = (n \<noteq> 0)"
| "truthy (JStr s) = (s \<noteq> [])"
| "truthy (JArr xs) = True"
| "truthy (JObj kvs) = True"

text \<open>
  A plain object used as a dictionary, such as \<open>toolResults\<close>: its own properties and its
  prototype. An object literal \<open>{}\<close> has no own property and the prototype
  \<open>Object.prototype\<close>.
\<close>

datatype js_proto = ObjectPrototype | NullPrototype | ValuePrototype json

record js_object =
  own :: "jsstring \<rightharpoonup> json"
  proto :: js_proto

definition empty_object :: js_object where
  "empty_object = \<lparr>own = Map.empty, proto = ObjectPrototype\<rparr>"

definition proto_key :: jsstring where
  "proto_key = ascii ''__proto__''"

text \<open>
  The setter of the accessor \<open>Object.prototype.__proto__\<close>: an object or \<open>null\<close> becomes the
  prototype of the receiver, any other value is ignored. No own property is created.
\<close>

definition proto_setter :: "json \<Rightarrow> js_object \<Rightarrow> js_object" where
  "proto_setter v obj =
     (case v of
        JObj kvs \<Rightarrow> obj\<lparr>proto := ValuePrototype v\<rparr>
      | JArr xs \<Rightarrow> obj\<lparr>proto := ValuePrototype v\<rparr>
      | JNull \<Rightarrow> obj\<lparr>proto := NullPrototype\<rparr>
      | _ \<Rightarrow> obj)"

text \<open>
  Whether an assignment to \<open>obj.__proto__\<close> reaches that setter: the object has no own
  property of this name and none of its prototypes below \<open>Object.prototype\<close> has one. A value
  that \<open>JSON.parse\<close> built has such an own property when the key is written in its text.
\<close>

definition reaches_proto_setter :: "js_object \<Rightarrow> bool" where
  "reaches_proto_setter obj =
     (own obj proto_key = None \<and>
      (case proto obj of
         ObjectPrototype \<Rightarrow> True
       | NullPrototype \<Rightarrow> False
       | ValuePrototype (JObj kvs) \<Rightarrow> proto_key \<notin> set (map fst kvs)
       | ValuePrototype v \<Rightarrow> True))"

text \<open>
  The assignment \<open>obj[key] = value\<close>. Every key but \<open>__proto__\<close> becomes or stays an own
  property: the properties an object inherits under other names are writable data
  properties.
\<close>

definition set_property :: "jsstring \<Rightarrow> json \<Rightarrow> js_object \<Rightarrow> js_object" where
  "set_property key v obj =
     (if key = proto_key \<and> reaches_proto_setter obj then proto_setter v obj
      else obj\<lparr>own := (own obj)(key \<mapsto> v)\<rparr>)"

text \<open>
  A thrown JavaScript error: its \<open>name\<close> and its \<open>message\<close>. \<open>e?.message || String(e)\<close> is
  the message when it is not empty, and otherwise \<open>String(e)\<close>, which for an error with an
  empty message is its name.
\<close>

record js_error =
  err_name :: jsstring
  message :: jsstring

definition error_text :: "js_error \<Rightarrow> jsstring" where
  "error_text e = (if message e \<noteq> [] then message e else err_name e)"

text \<open>
  \<open>encodeURIComponent\<close>: the unreserved characters stay, every other code point becomes the
  bytes of its UTF-8 encoding written as \<open>%XX\<close>, and a surrogate without its partner raises
  \<open>URIError\<close>.
\<close>

definition uri_unreserved :: "nat \<Rightarrow> bool" where
  "uri_unreserved c =
     ((65 \<le> c \<and> c \<le> 90) \<or> (97 \<le> c \<and> c \<le> 122) \<or> (48 \<le> c \<and> c \<le> 57) \<or>
      c = 45 \<or> c = 95 \<or> c = 46 \<or> c = 33 \<or> c = 126 \<or> c = 42 \<or> c = 39 \<or> c = 40 \<or> c = 41)"

definition utf8_encode :: "nat \<Rightarrow> nat list" where
  "utf8_encode c =
     (if c < 0x80 then [c]
      else if c < 0x800 then [0xC0 + c div 64, 0x80 + c mod 64]
      else if c < 0x10000 then [0xE0 + c div 4096, 0x80 + c div 64 mod 64, 0x80 + c mod 64]
      else [0xF0 + c div 262144, 0x80 + c div 4096 mod 64, 0x80 + c div 64 mod 64,
            0x80 + c mod 64])"

definition hex_digit :: "nat \<Rightarrow> nat" where
  "hex_digit n = (if n < 10 then 48 + n else 55 + n)"

definition percent :: "nat \<Rightarrow> jsstring" where
  "percent b = [37, hex_digit (b div 16), hex_digit (b mod 16)]"

definition uri_malformed :: js_error where
  "uri_malformed = \<lparr>err_name = ascii ''URIError'', message = ascii ''URI malformed''\<rparr>"

fun encodeURIComponent :: "jsstring \<Rightarrow> js_error + jsstring" where
  "encodeURIComponent [] = Inr []"
| "encodeURIComponent (c # cs) =
     (if 0xD800 \<le> c \<and> c \<le> 0xDFFF then Inl uri_malformed
      else (case encodeURIComponent cs of
              Inl e \<Rightarrow> Inl e
            | Inr r \<Rightarrow>
                Inr ((if uri_unreserved c then [c] else concat (map percent (utf8_encode c))) @ r)))"

section \<open>TextDecoder("utf-8") in streaming mode\<close>

text \<open>
  \<open>decoder.decode(value, {stream: true})\<close> is the byte-wise UTF-8 decoder of the WHATWG
  Encoding standard. Its state survives from one call to the next, so a character cut by a
  chunk boundary is completed by the next chunk. A malformed sequence yields U+FFFD, and a
  byte order mark at the very start of the stream is dropped.
\<close>

record utf8_decoder =
  code_point :: nat
  bytes_seen :: nat
  bytes_needed :: nat
  lower_boundary :: byte
  upper_boundary :: byte
  bom_seen :: bool

definition new_decoder :: utf8_decoder where
  "new_decoder = \<lparr>code_point = 0, bytes_seen = 0, bytes_needed = 0,
     lower_boundary = 0x80, upper_boundary = 0xBF, bom_seen = False\<rparr>"

definition reset_sequence :: "utf8_decoder \<Rightarrow> utf8_decoder" where
  "reset_sequence d = d\<lparr>code_point := 0, bytes_seen := 0, bytes_needed := 0,
     lower_boundary := 0x80, upper_boundary := 0xBF\<rparr>"

text \<open>A byte read while no sequence is open.\<close>

definition utf8_lead :: "utf8_decoder \<Rightarrow> byte \<Rightarrow> utf8_decoder \<times> nat list" where
  "utf8_lead d b =
     (if b \<le> 0x7F then (d, [unat b])
      else if 0xC2 \<le> b \<and> b \<le> 0xDF then
        (d\<lparr>bytes_needed := 1, code_point := unat (b AND 0x1F)\<rparr>, [])
      else if 0xE0 \<le> b \<and> b \<le> 0xEF then
        (d\<lparr>lower_boundary := (if b = 0xE0 then 0xA0 else lower_boundary d),
           upper_boundary := (if b = 0xED then 0x9F else upper_boundary d),
           bytes_needed := 2, code_point := unat (b AND 0xF)\<rparr>, [])
      else if 0xF0 \<le> b \<and> b \<le> 0xF4 then
        (d\<lparr>lower_boundary := (if b = 0xF0 then 0x90 else lower_boundary d),
           upper_boundary := (if b = 0xF4 then 0x8F else upper_boundary d),
           bytes_needed := 3, code_point := unat (b AND 0x7)\<rparr>, [])
      else (d, [0xFFFD]))"

text \<open>
  One byte through the decoder. A byte outside the expected range ends the open sequence with
  U+FFFD and is then read again as the first byte of a new sequence.
\<close>

definition utf8_byte :: "utf8_decoder \<Rightarrow> byte \<Rightarrow> utf8_decoder \<times> nat list" where
  "utf8_byte d b =
     (if bytes_needed d = 0 then utf8_lead d b
      else if b < lower_boundary d \<or> upper_boundary d < b then
        (case utf8_lead (reset_sequence d) b of (d', out) \<Rightarrow> (d', 0xFFFD # out))
      else
        (let d1 = d\<lparr>lower_boundary := 0x80, upper_boundary := 0xBF,
                     code_point := code_point d * 64 + unat (b AND 0x3F),
                     bytes_seen := bytes_seen d + 1\<rparr>
         in if bytes_seen d1 \<noteq> bytes_needed d1 then (d1, [])
            else (reset_sequence d1, [code_point d1])))"

text \<open>The first code point of the stream is dropped when it is the byte order mark.\<close>

fun strip_bom :: "utf8_decoder \<Rightarrow> nat list \<Rightarrow> utf8_decoder \<times> nat list" where
  "strip_bom d [] = (d, [])"
| "strip_bom d (c # cs) =
     (if bom_seen d then (d, c # cs)
      else (d\<lparr>bom_seen := True\<rparr>, if c = 0xFEFF then cs else c # cs))"

fun decode_stream :: "utf8_decoder \<Rightarrow> byte list \<Rightarrow> utf8_decoder \<times> jsstring" where
  "decode_stream d [] = (d, [])"
| "decode_stream d (b # bs) =
     (case utf8_byte d b of (d1, out) \<Rightarrow>
        (case strip_bom d1 out of (d2, out') \<Rightarrow>
           (case decode_stream d2 bs of (d3, rest) \<Rightarrow> (d3, out' @ rest))))"

section \<open>Wire and transcript types\<close>

datatype msg_role = Human | Ai | Tool | Custom

record ToolCall =
  tc_id :: jsstring
  tc_name :: jsstring
  args :: json

text \<open>\<open>ChatMsg\<close>: a message as the backend sends it; its field \<open>type\<close> is \<open>msg_type\<close> here.\<close>

record ChatMsg =
  msg_type :: msg_role
  content :: json
  run_id :: "jsstring option"
  tool_calls :: "ToolCall list option"
  tool_call_id :: "jsstring option"
  custom_data :: "json option"

text \<open>
  \<open>UiMessage\<close>: one entry of the transcript. Identifiers come from \<open>uuid()\<close>, modelled as
  numbers drawn from a counter.
\<close>

record UiMessage =
  ui_id :: nat
  role :: msg_role
  ui_content :: jsstring
  runId :: "jsstring option"
  toolCalls :: "ToolCall list option"
  toolResults :: "js_object option"

text \<open>
  \<open>StreamEvent\<close>, with the payload of a \<open>message\<close> event read at the type the page casts it
  to (\<open>ev.content as ChatMsg\<close>).
\<close>

datatype StreamEvent =
    Token jsstring
  | Message ChatMsg
  | Error jsstring

section \<open>The stream decoder (src/frontend/src/api/sse.ts)\<close>

text \<open>
  What the network does is an input of the model. \<open>fetch\<close> either rejects or resolves to a
  response; the body of a response delivers finitely many chunks of bytes and then either
  reports the end of the stream or fails the pending \<open>read()\<close>. \<open>res_text\<close> is what
  \<open>res.text()\<close> resolves to, \<open>None\<close> when it rejects.
\<close>

datatype stream_end = EndOfStream | ReadError js_error

record response_body =
  body_chunks :: "byte list list"
  body_end :: stream_end

record response =
  ok :: bool
  status :: nat
  body :: "response_body option"
  res_text :: "jsstring option"

datatype fetch_result = FetchRejected js_error | FetchResolved response

text \<open>
  \<open>JSON.parse\<close> followed by the cast \<open>obj as StreamEvent\<close> is a parameter of the decoder:
  \<open>None\<close> stands for the \<open>SyntaxError\<close> of \<open>JSON.parse\<close>. A callback \<open>onEvent\<close> works on
  the caller's state; it returns that state and the error it threw, if it threw one.
\<close>

type_synonym parser = "jsstring \<Rightarrow> StreamEvent option"

type_synonym 's handler = "StreamEvent \<Rightarrow> 's \<Rightarrow> 's \<times> js_error option"

text \<open>A callback that never throws.\<close>

definition total_handler :: "(StreamEvent \<Rightarrow> 's \<Rightarrow> 's) \<Rightarrow> 's handler" where
  "total_handler f ev s = (f ev s, None)"

definition data_prefix :: jsstring where
  "data_prefix = ascii ''data:''"

definition done_sentinel :: jsstring where
  "done_sentinel = ascii ''[DONE]''"

definition bad_payload :: jsstring where
  "bad_payload = ascii ''Bad SSE payload''"

text \<open>
  \<open>chunk.split("\n").map((s) => s.trimEnd()).find((l) => l.startsWith("data:"))\<close>
\<close>

definition data_line :: "jsstring \<Rightarrow> jsstring option" where
  "data_line chunk =
     find (\<lambda>l. startsWith l data_prefix) (map trimEnd (js_split chunk [10]))"

text \<open>\<open>line.replace(/^data:\s*/, "")\<close>\<close>

definition strip_data :: "jsstring \<Rightarrow> jsstring" where
  "strip_data line =
     (if startsWith line data_prefix
      then dropWhile is_js_space (drop (length data_prefix) line)
      else line)"

text \<open>The payload the decoder extracts from one event block, if the block has a data line.\<close>

definition block_payload :: "jsstring \<Rightarrow> jsstring option" where
  "block_payload chunk = map_option strip_data (data_line chunk)"

text \<open>
  The statement \<open>try { const obj = JSON.parse(data); onEvent(obj) } catch { onEvent(error) }\<close>.
  The \<open>catch\<close> block runs when \<open>JSON.parse\<close> throws and also when the callback does; an
  error thrown by the callback inside the \<open>catch\<close> block leaves \<open>streamChat\<close>.
\<close>

definition deliver :: "parser \<Rightarrow> 's handler \<Rightarrow> jsstring \<Rightarrow> 's \<Rightarrow> 's \<times> js_error option" where
  "deliver parse onEvent data s =
     (case parse data of
        None \<Rightarrow> onEvent (Error bad_payload) s
      | Some obj \<Rightarrow>
          (case onEvent obj s of
             (s1, None) \<Rightarrow> (s1, None)
           | (s1, Some e) \<Rightarrow> onEvent (Error bad_payload) s1))"

text \<open>
  The \<open>for (const chunk of chunks)\<close> loop. The second component of the result tells how
  the loop ended: after its last chunk, through the \<open>return\<close> on the sentinel, or with an
  error.
\<close>

datatype loop_exit = Completed | Returned | Threw js_error

fun process_chunks ::
  "parser \<Rightarrow> 's handler \<Rightarrow> jsstring list \<Rightarrow> 's \<Rightarrow> 's \<times> loop_exit" where
  "process_chunks parse onEvent [] s = (s, Completed)"
| "process_chunks parse onEvent (chunk # chunks) s =
     (case data_line chunk of
        None \<Rightarrow> process_chunks parse onEvent chunks s
      | Some line \<Rightarrow>
          (let data = strip_data line in
           if data = done_sentinel then (s, Returned)
           else (case deliver parse onEvent data s of
                   (s1, None) \<Rightarrow> process_chunks parse onEvent chunks s1
                 | (s1, Some e) \<Rightarrow> (s1, Threw e))))"

text \<open>
  The \<open>while (true)\<close> loop over \<open>reader.read()\<close>. The result is the caller's state and the
  error \<open>streamChat\<close> threw, if any.
\<close>

fun read_loop ::
  "parser \<Rightarrow> 's handler \<Rightarrow> byte list list \<Rightarrow> stream_end \<Rightarrow> utf8_decoder \<Rightarrow> jsstring \<Rightarrow> 's
     \<Rightarrow> 's \<times> js_error option" where
  "read_loop parse onEvent [] fin decoder buffer s =
     (case fin of EndOfStream \<Rightarrow> (s, None) | ReadError e \<Rightarrow> (s, Some e))"
| "read_loop parse onEvent (v # rest) fin decoder buffer s =
     (case decode_stream decoder v of (decoder', txt) \<Rightarrow>
        (let chunks = js_split (buffer @ txt) [10, 10];
             buffer' = (if chunks = [] then [] else last chunks)
         in case process_chunks parse onEvent (butlast chunks) s of
              (s', Completed) \<Rightarrow> read_loop parse onEvent rest fin decoder' buffer' s'
            | (s', Returned) \<Rightarrow> (s', None)
            | (s', Threw e) \<Rightarrow> (s', Some e)))"

definition stream_failed :: "response \<Rightarrow> js_error" where
  "stream_failed res =
     \<lparr>err_name = ascii ''Error'',
      message = ascii ''Stream failed: '' @ decimal (status res) @ [32] @
                (case res_text res of None \<Rightarrow> [] | Some t \<Rightarrow> t)\<rparr>"

definition streamChat ::
  "parser \<Rightarrow> fetch_result \<Rightarrow> 's handler \<Rightarrow> 's \<Rightarrow> 's \<times> js_error option" where
  "streamChat parse net onEvent s =
     (case net of
        FetchRejected e \<Rightarrow> (s, Some e)
      | FetchResolved res \<Rightarrow>
          (case body res of
             None \<Rightarrow> (s, Some (stream_failed res))
           | Some b \<Rightarrow>
               if \<not> ok res then (s, Some (stream_failed res))
               else read_loop parse onEvent (body_chunks b) (body_end b) new_decoder [] s))"

text \<open>The events a stream hands to its callback, in order.\<close>

definition record_event :: "StreamEvent list handler" where
  "record_event = total_handler (\<lambda>ev evs. evs @ [ev])"

definition emitted :: "parser \<Rightarrow> fetch_result \<Rightarrow> StreamEvent list" where
  "emitted parse net = fst (streamChat parse net record_event [])"

section \<open>The transcript (src/frontend/src/pages/ChatPage.vue)\<close>

text \<open>
  The reactive state of the page that the transcript code reads and writes: \<open>messages\<close>,
  \<open>input\<close>, \<open>loading\<close>, \<open>threadId\<close>, \<open>selectedModel\<close>, \<open>selectedAgent\<close>, and the supply of
  fresh identifiers behind \<open>uuid()\<close>.
\<close>

record page =
  messages :: "UiMessage list"
  input :: jsstring
  loading :: bool
  threadId :: jsstring
  selectedModel :: jsstring
  selectedAgent :: jsstring
  next_uuid :: nat

definition uuid :: "page \<Rightarrow> nat \<times> page" where
  "uuid s = (next_uuid s, s\<lparr>next_uuid := Suc (next_uuid s)\<rparr>)"

text \<open>
  \<open>JSON.stringify(v, null, 2)\<close> is a parameter of the model. \<open>as_text\<close> is the expression
  \<open>typeof v === "string" ? v : JSON.stringify(v, null, 2)\<close>.
\<close>

type_synonym stringify = "json \<Rightarrow> jsstring"

definition as_text :: "stringify \<Rightarrow> json \<Rightarrow> jsstring" where
  "as_text str v = (case v of JStr c \<Rightarrow> c | _ \<Rightarrow> str v)"

definition toUiMessage :: "stringify \<Rightarrow> ChatMsg \<Rightarrow> page \<Rightarrow> UiMessage \<times> page" where
  "toUiMessage str m s =
     (case uuid s of (n, s') \<Rightarrow>
        (\<lparr>ui_id = n, role = msg_type m, ui_content = as_text str (content m),
          runId = run_id m, toolCalls = tool_calls m, toolResults = Some empty_object\<rparr>, s'))"

text \<open>\<open>msg.toolCalls\<close>, read as the empty list when the field is absent.\<close>

definition calls_of :: "UiMessage \<Rightarrow> ToolCall list" where
  "calls_of msg = (case toolCalls msg of None \<Rightarrow> [] | Some tcs \<Rightarrow> tcs)"

text \<open>\<open>msg.toolResults || {}\<close>\<close>

definition results_of :: "UiMessage \<Rightarrow> js_object" where
  "results_of msg = (case toolResults msg of None \<Rightarrow> empty_object | Some r \<Rightarrow> r)"

text \<open>
  The loop of \<open>attachToolResult\<close>, \<open>for (let i = messages.value.length - 1; i >= 0; i--)\<close>:
  the last argument is \<open>i + 1\<close>. The result is the transcript after the assignment to
  \<open>msg.toolResults[toolCallId]\<close>, or \<open>None\<close> when the loop ends without \<open>return\<close>.
\<close>

fun attach_loop :: "UiMessage list \<Rightarrow> jsstring \<Rightarrow> json \<Rightarrow> nat \<Rightarrow> UiMessage list option" where
  "attach_loop msgs toolCallId result 0 = None"
| "attach_loop msgs toolCallId result (Suc i) =
     (let msg = msgs ! i in
      if role msg \<noteq> Ai then attach_loop msgs toolCallId result i
      else if calls_of msg = [] then attach_loop msgs toolCallId result i
      else if \<not> list_ex (\<lambda>tc. tc_id tc = toolCallId) (calls_of msg)
        then attach_loop msgs toolCallId result i
      else Some (msgs[i := msg\<lparr>toolResults :=
                                Some (set_property toolCallId result (results_of msg))\<rparr>]))"

definition attachToolResult :: "stringify \<Rightarrow> jsstring \<Rightarrow> json \<Rightarrow> page \<Rightarrow> page" where
  "attachToolResult str toolCallId result s =
     (case attach_loop (messages s) toolCallId result (length (messages s)) of
        Some msgs \<Rightarrow> s\<lparr>messages := msgs\<rparr>
      | None \<Rightarrow>
          (case uuid s of (n, s') \<Rightarrow>
             s'\<lparr>messages := messages s' @
                   [\<lparr>ui_id = n, role = Tool, ui_content = as_text str result,
                     runId = None, toolCalls = None, toolResults = None\<rparr>]\<rparr>))"

text \<open>
  The test \<open>m.type === "tool" && m.tool_call_id\<close>: an absent and an empty \<open>tool_call_id\<close> are
  both falsy.
\<close>

definition tool_result_id :: "ChatMsg \<Rightarrow> jsstring option" where
  "tool_result_id m =
     (if msg_type m = Tool
      then (case tool_call_id m of None \<Rightarrow> None | Some i \<Rightarrow> if i = [] then None else Some i)
      else None)"

text \<open>
  \<open>loadHistory\<close>. The loop fills the local array \<open>ui\<close>, while \<open>attachToolResult\<close> reads and
  writes \<open>messages.value\<close>, which is assigned only after the loop. \<open>res\<close> is the \<open>messages\<close>
  field of the fetched history, \<open>None\<close> when it is missing.
\<close>

fun history_loop ::
  "stringify \<Rightarrow> ChatMsg list \<Rightarrow> UiMessage list \<Rightarrow> page \<Rightarrow> UiMessage list \<times> page" where
  "history_loop str [] ui s = (ui, s)"
| "history_loop str (m # ms) ui s =
     (case toUiMessage str m s of (u, s1) \<Rightarrow>
        history_loop str ms (ui @ [u])
          (case tool_result_id m of
             Some i \<Rightarrow> attachToolResult str i (content m) s1
           | None \<Rightarrow> s1))"

definition loadHistory :: "stringify \<Rightarrow> ChatMsg list option \<Rightarrow> page \<Rightarrow> page" where
  "loadHistory str res s =
     (case history_loop str (case res of None \<Rightarrow> [] | Some ms \<Rightarrow> ms) [] s of
        (ui, s') \<Rightarrow> s'\<lparr>messages := ui\<rparr>)"

text \<open>
  \<open>send\<close> keeps a reference \<open>aiPlaceholder\<close> to the entry it pushed. While \<open>send\<close> runs the
  transcript only grows at its end, so the reference is the position \<open>ph\<close> of that entry.
\<close>

definition modify_entry :: "nat \<Rightarrow> (UiMessage \<Rightarrow> UiMessage) \<Rightarrow> page \<Rightarrow> page" where
  "modify_entry ph f s = s\<lparr>messages := (messages s)[ph := f (messages s ! ph)]\<rparr>"

definition error_notice :: jsstring where
  "error_notice = [10, 10] @ ascii ''[Error] ''"

definition failed_notice :: jsstring where
  "failed_notice = [10, 10] @ ascii ''[Stream Failed] ''"

text \<open>The branch \<open>m.type === "ai"\<close> of the callback, applied to the placeholder.\<close>

definition final_ai :: "stringify \<Rightarrow> ChatMsg \<Rightarrow> UiMessage \<Rightarrow> UiMessage" where
  "final_ai str m p =
     p\<lparr>ui_content :=
         (case content m of
            JStr c \<Rightarrow> if c \<noteq> [] then c else ui_content p
          | v \<Rightarrow> if truthy v then str v else ui_content p),
       runId := run_id m,
       toolCalls := Some (case tool_calls m of None \<Rightarrow> [] | Some tcs \<Rightarrow> tcs),
       toolResults := Some (results_of p)\<rparr>"

definition custom_text :: "stringify \<Rightarrow> ChatMsg \<Rightarrow> jsstring" where
  "custom_text str m =
     (case custom_data m of
        Some (JStr c) \<Rightarrow> c
      | Some JNull \<Rightarrow> str (content m)
      | Some v \<Rightarrow> str v
      | None \<Rightarrow> str (content m))"

definition push_custom :: "stringify \<Rightarrow> ChatMsg \<Rightarrow> page \<Rightarrow> page" where
  "push_custom str m s =
     (case uuid s of (n, s') \<Rightarrow>
        s'\<lparr>messages := messages s' @
              [\<lparr>ui_id = n, role = Custom, ui_content = custom_text str m,
                runId = None, toolCalls = None, toolResults = None\<rparr>]\<rparr>)"

text \<open>
  The callback \<open>(ev) => { ... }\<close> that \<open>send\<close> passes to \<open>streamChat\<close>. On a \<open>StreamEvent\<close>
  none of its statements throws, so it is a function on the page.
\<close>

fun onEvent :: "stringify \<Rightarrow> nat \<Rightarrow> StreamEvent \<Rightarrow> page \<Rightarrow> page" where
  "onEvent str ph (Token c) s = modify_entry ph (\<lambda>p. p\<lparr>ui_content := ui_content p @ c\<rparr>) s"
| "onEvent str ph (Error c) s =
     modify_entry ph (\<lambda>p. p\<lparr>ui_content := ui_content p @ error_notice @ c\<rparr>) s"
| "onEvent str ph (Message m) s =
     (let s1 = (if msg_type m = Ai then modify_entry ph (final_ai str m) s else s);
          s2 = (case tool_result_id m of
                  Some i \<Rightarrow> attachToolResult str i (content m) s1
                | None \<Rightarrow> s1)
      in if msg_type m = Custom then push_custom str m s2 else s2)"

text \<open>\<open>send\<close> from the busy flag to the placeholder and the emptied input.\<close>

definition send_begin :: "jsstring \<Rightarrow> page \<Rightarrow> page" where
  "send_begin txt s =
     (case uuid (s\<lparr>loading := True\<rparr>) of (n1, s1) \<Rightarrow>
        (case uuid (s1\<lparr>messages := messages s1 @
                       [\<lparr>ui_id = n1, role = Human, ui_content = txt,
                         runId = None, toolCalls = None, toolResults = None\<rparr>]\<rparr>) of
           (n2, s2) \<Rightarrow>
             s2\<lparr>messages := messages s2 @
                   [\<lparr>ui_id = n2, role = Ai, ui_content = [],
                     runId = None, toolCalls = Some [], toolResults = Some empty_object\<rparr>],
                input := []\<rparr>))"

text \<open>The \<open>catch\<close> block: a thrown error becomes a notice in the placeholder.\<close>

definition send_catch :: "nat \<Rightarrow> page \<times> js_error option \<Rightarrow> page" where
  "send_catch ph r =
     (case r of
        (s, None) \<Rightarrow> s
      | (s, Some e) \<Rightarrow>
          modify_entry ph (\<lambda>p. p\<lparr>ui_content := ui_content p @ failed_notice @ error_text e\<rparr>) s)"

text \<open>The \<open>finally\<close> block.\<close>

definition send_finally :: "page \<Rightarrow> page" where
  "send_finally s = s\<lparr>loading := False\<rparr>"

definition placeholder_index :: "page \<Rightarrow> nat" where
  "placeholder_index s = Suc (length (messages s))"

text \<open>
  The \<open>try\<close> block with its \<open>catch\<close>, where \<open>net\<close> is what \<open>fetch\<close> does with the request:
  the state just before \<open>finally\<close> runs.
\<close>

definition send_try :: "parser \<Rightarrow> stringify \<Rightarrow> fetch_result \<Rightarrow> page \<Rightarrow> page" where
  "send_try parse str net s =
     send_catch (placeholder_index s)
       (streamChat parse net (total_handler (onEvent str (placeholder_index s)))
          (send_begin (trim (input s)) s))"

text \<open>
  Between the placeholder and the \<open>try\<close> block \<open>send\<close> awaits \<open>scrollToBottom()\<close> and builds
  the URL and the payload of the request. What lies outside the page is an input of the
  model: \<open>scrolled\<close> is the error with which the awaited \<open>scrollToBottom()\<close> rejects, if it
  does; \<open>userId\<close> is what evaluating the computed \<open>userId.value\<close> gives, which reads the
  session and \<open>localStorage\<close>; \<open>fetch\<close> is what the network does with a request.
\<close>

record stream_payload =
  p_message :: jsstring
  p_thread_id :: jsstring
  p_user_id :: jsstring
  p_model :: "jsstring option"
  p_stream_tokens :: bool

record send_env =
  scrolled :: "js_error option"
  userId :: "js_error + jsstring"
  fetch :: "jsstring \<Rightarrow> stream_payload \<Rightarrow> fetch_result"

definition stream_url :: "jsstring \<Rightarrow> js_error + jsstring" where
  "stream_url agent =
     (if agent = [] then Inr (ascii ''/stream'')
      else (case encodeURIComponent agent of
              Inl e \<Rightarrow> Inl e
            | Inr a \<Rightarrow> Inr (ascii ''/stream'' @ ascii ''?agent_id='' @ a)))"

text \<open>
  The statements from \<open>await scrollToBottom()\<close> to the payload, lines 184 to 197: the request,
  or the error that one of them threw. They stand before the \<open>try\<close>.
\<close>

definition prepare_request :: "send_env \<Rightarrow> page \<Rightarrow> js_error + jsstring \<times> stream_payload" where
  "prepare_request env s =
     (case scrolled env of
        Some e \<Rightarrow> Inl e
      | None \<Rightarrow>
          (case stream_url (selectedAgent s) of
             Inl e \<Rightarrow> Inl e
           | Inr url \<Rightarrow>
               (case userId env of
                  Inl e \<Rightarrow> Inl e
                | Inr uid \<Rightarrow>
                    Inr (url,
                         \<lparr>p_message = trim (input s), p_thread_id = threadId s, p_user_id = uid,
                          p_model = (if selectedModel s = [] then None else Some (selectedModel s)),
                          p_stream_tokens = True\<rparr>))))"

text \<open>
  \<open>send\<close>. The result is the page and the error with which \<open>send\<close> rejects, if it does: an
  error thrown before the \<open>try\<close> is caught by nothing and skips the \<open>finally\<close> block.
\<close>

definition send :: "parser \<Rightarrow> stringify \<Rightarrow> send_env \<Rightarrow> page \<Rightarrow> page \<times> js_error option" where
  "send parse str env s =
     (if trim (input s) = [] \<or> loading s then (s, None)
      else (case prepare_request env s of
              Inl e \<Rightarrow> (send_begin (trim (input s)) s, Some e)
            | Inr (url, payload) \<Rightarrow>
                (send_finally (send_try parse str (fetch env url payload) s), None)))"

section \<open>Notions used in the statements\<close>

text \<open>
  The specification's ``\<open>ai\<close>-role entry whose \<open>toolCalls\<close> contains a matching id'', written
  from its words; the loop of \<open>attachToolResult\<close> tests the same thing in three steps.
\<close>

definition lists_call :: "jsstring \<Rightarrow> UiMessage \<Rightarrow> bool" where
  "lists_call toolCallId msg =
     (role msg = Ai \<and> list_ex (\<lambda>tc. tc_id tc = toolCallId) (calls_of msg))"

text \<open>The entry after \<open>msg.toolResults[toolCallId] = result\<close>.\<close>

definition with_result :: "jsstring \<Rightarrow> json \<Rightarrow> UiMessage \<Rightarrow> UiMessage" where
  "with_result toolCallId result msg =
     msg\<lparr>toolResults := Some (set_property toolCallId result (results_of msg))\<rparr>"

text \<open>
  The page in the middle of a \<open>send\<close>: both entries are pushed and the callback has handled
  the events \<open>evs\<close>.
\<close>

definition after_events :: "stringify \<Rightarrow> page \<Rightarrow> StreamEvent list \<Rightarrow> page" where
  "after_events str s evs =
     fold (onEvent str (placeholder_index s)) evs (send_begin (trim (input s)) s)"

section \<open>Inputs of the worked examples\<close>

text \<open>
  Concrete inputs on which the theorems below are evaluated. \<open>sample_parse\<close> stands in for
  \<open>JSON.parse\<close> there: it reads a token event spelled exactly
  \<open>{"type":"token","content":"..."}\<close> whose content needs no escape, and fails on every
  other text; the examples hand it only such events and texts that are not JSON. No general
  theorem depends on it.
\<close>

definition ascii_bytes :: "string \<Rightarrow> byte list" where
  "ascii_bytes s = map of_char s"

definition sample_parse :: parser where
  \<open>sample_parse data =
     (let pre = ascii ''{"type":"token","content":"''; suf = ascii ''"}'';
          mid = take (length data - length pre - length suf) (drop (length pre) data)
      in if length pre + length suf \<le> length data \<and> startsWith data pre \<and>
            drop (length data - length suf) data = suf \<and>
            list_all (\<lambda>c. c \<noteq> 34 \<and> c \<noteq> 92 \<and> 32 \<le> c) mid
         then Some (Token mid) else None)\<close>

definition stream_of :: "byte list list \<Rightarrow> stream_end \<Rightarrow> fetch_result" where
  "stream_of vs fin =
     FetchResolved \<lparr>ok = True, status = 200,
       body = Some \<lparr>body_chunks = vs, body_end = fin\<rparr>, res_text = None\<rparr>"

definition cafe_whole :: "byte list list" where
  \<open>cafe_whole =
     [ascii_bytes ''data: {"type":"token","content":"h'' @ [0xC3, 0xA9] @ ascii_bytes ''"}'' @
      [0x0A, 0x0A] @ ascii_bytes ''data: [DONE]'' @ [0x0A, 0x0A]]\<close>

definition cafe_pieces :: "byte list list" where
  \<open>cafe_pieces =
     [ascii_bytes ''da'',
      ascii_bytes ''ta: {"type":"token","content":"h'' @ [0xC3],
      [0xA9] @ ascii_bytes ''"}'' @ [0x0A],
      [0x0A] @ ascii_bytes ''data: [DONE]'' @ [0x0A, 0x0A]]\<close>

definition done_early :: "byte list list" where
  \<open>done_early =
     [ascii_bytes ''data: {"type":"token","content":"He"}'' @ [0x0A, 0x0A] @
      ascii_bytes ''data: [DONE]'' @ [0x0A, 0x0A] @
      ascii_bytes ''data: {"type":"token","content":"llo"}'' @ [0x0A, 0x0A] @
      ascii_bytes ''data: {"ty'',
      ascii_bytes ''pe":"token","content":"!"}'' @ [0x0A, 0x0A]]\<close>

definition sample_error :: js_error where
  "sample_error = \<lparr>err_name = ascii ''TypeError'', message = ascii ''network error''\<rparr>"

text \<open>
  \<open>sample_stringify\<close> stands in for \<open>JSON.stringify(v, null, 2)\<close>: it is exact on \<open>null\<close>,
  the booleans, \<open>[]\<close> and \<open>{}\<close>, and the examples call it on no other value.
\<close>

definition sample_stringify :: stringify where
  "sample_stringify v =
     (case v of
        JNull \<Rightarrow> ascii ''null''
      | JBool b \<Rightarrow> (if b then ascii ''true'' else ascii ''false'')
      | JArr [] \<Rightarrow> ascii ''[]''
      | JObj [] \<Rightarrow> ascii ''{}''
      | _ \<Rightarrow> [])"

definition empty_page :: page where
  "empty_page = \<lparr>messages = [], input = [], loading = False, threadId = ascii ''t-1'',
     selectedModel = [], selectedAgent = [], next_uuid = 0\<rparr>"

definition typing_page :: page where
  "typing_page = empty_page\<lparr>input := ascii '' hi ''\<rparr>"

definition search_call :: "jsstring \<Rightarrow> ToolCall" where
  "search_call i = \<lparr>tc_id = i, tc_name = ascii ''search'', args = JObj []\<rparr>"

definition ai_with_calls :: ChatMsg where
  "ai_with_calls =
     \<lparr>msg_type = Ai, content = JStr [], run_id = Some (ascii ''run-1''),
      tool_calls = Some [search_call (ascii ''a''), search_call (ascii ''b'')],
      tool_call_id = None, custom_data = None\<rparr>"

definition tool_reply :: "jsstring \<Rightarrow> ChatMsg" where
  "tool_reply i =
     \<lparr>msg_type = Tool, content = JStr (ascii ''42''), run_id = None, tool_calls = None,
      tool_call_id = Some i, custom_data = None\<rparr>"

definition tool_history :: "ChatMsg list" where
  "tool_history = [ai_with_calls, tool_reply (ascii ''b'')]"

definition human_msg :: ChatMsg where
  "human_msg =
     \<lparr>msg_type = Human, content = JStr (ascii ''hi''), run_id = None, tool_calls = None,
      tool_call_id = None, custom_data = None\<rparr>"

definition final_msg :: ChatMsg where
  "final_msg =
     \<lparr>msg_type = Ai, content = JStr (ascii ''Hello!''), run_id = Some (ascii ''run-1''),
      tool_calls = Some [search_call (ascii ''a'')], tool_call_id = None, custom_data = None\<rparr>"

definition hello_chunks :: "byte list list" where
  \<open>hello_chunks =
     [ascii_bytes ''data: {"type":"token","content":"He"}'' @ [0x0A, 0x0A],
      ascii_bytes ''data: {"type":"token","content":"llo"}'' @ [0x0A, 0x0A] @
      ascii_bytes ''data: [DONE]'' @ [0x0A, 0x0A]]\<close>

definition server_error :: fetch_result where
  "server_error = FetchResolved \<lparr>ok = False, status = 500, body = None,
     res_text = Some (ascii ''boom'')\<rparr>"

text \<open>A stream that delivers the token \<open>He\<close> and then fails the next read.\<close>

definition broken_chunks :: "byte list list" where
  \<open>broken_chunks = [ascii_bytes ''data: {"type":"token","content":"He"}'' @ [0x0A, 0x0A]]\<close>

text \<open>
  Three worlds for \<open>send\<close>: the scroll and the user id succeed, and the server streams
  \<open>Hello\<close>, or fails a read after \<open>He\<close>, or answers with status 500.
\<close>

definition hello_env :: send_env where
  "hello_env = \<lparr>scrolled = None, userId = Inr (ascii ''u-1''),
     fetch = (\<lambda>url payload. stream_of hello_chunks EndOfStream)\<rparr>"

definition broken_env :: send_env where
  "broken_env = \<lparr>scrolled = None, userId = Inr (ascii ''u-1''),
     fetch = (\<lambda>url payload. stream_of broken_chunks (ReadError sample_error))\<rparr>"

definition error_env :: send_env where
  "error_env = \<lparr>scrolled = None, userId = Inr (ascii ''u-1''),
     fetch = (\<lambda>url payload. server_error)\<rparr>"

text \<open>The page with \<open>hi\<close> typed, when the selected agent's key is a lone high surrogate.\<close>

definition surrogate_page :: page where
  "surrogate_page = typing_page\<lparr>selectedAgent := [0xD83D]\<rparr>"

text \<open>A loaded transcript whose only entry is an \<open>ai\<close> entry listing a call with the id \<open>__proto__\<close>.\<close>

definition proto_page :: page where
  "proto_page =
     loadHistory sample_stringify
       (Some [ai_with_calls\<lparr>tool_calls := Some [search_call proto_key]\<rparr>]) empty_page"

text \<open>A loaded transcript: an \<open>ai\<close> entry that lists the calls \<open>a\<close> and \<open>b\<close>, then a user entry.\<close>

definition asked_page :: page where
  "asked_page = loadHistory sample_stringify (Some [ai_with_calls, human_msg]) empty_page"

text \<open>A \<open>send\<close> of \<open>hi\<close> on an empty page, after the tokens \<open>He\<close> and \<open>llo\<close>.\<close>

definition streamed_page :: page where
  "streamed_page =
     after_events sample_stringify typing_page [Token (ascii ''He''), Token (ascii ''llo'')]"

text \<open>A stream whose first data line has two spaces after the prefix.\<close>

definition two_spaces :: "byte list list" where
  \<open>two_spaces =
     [ascii_bytes ''data:  [DONE]'' @ [0x0A, 0x0A] @
      ascii_bytes ''data: {"type":"token","content":"late"}'' @ [0x0A, 0x0A]]\<close>

lemmas eval_defs = new_decoder_def utf8_byte_def utf8_lead_def reset_sequence_def Let_def
  ascii_def ascii_bytes_def startsWith_def sample_parse_def data_line_def data_prefix_def
  trimEnd_def is_js_space_def strip_data_def done_sentinel_def bad_payload_def
  emitted_def streamChat_def stream_of_def record_event_def total_handler_def
  deliver_def block_payload_def

lemmas page_defs = empty_page_def typing_page_def search_call_def ai_with_calls_def
  tool_reply_def tool_history_def human_msg_def final_msg_def hello_chunks_def
  server_error_def asked_page_def sample_stringify_def broken_chunks_def hello_env_def
  broken_env_def error_env_def surrogate_page_def proto_page_def proto_key_def
  empty_object_def set_property_def proto_setter_def reaches_proto_setter_def
  prepare_request_def stream_url_def uri_malformed_def
  loadHistory_def toUiMessage_def uuid_def as_text_def tool_result_id_def attachToolResult_def
  calls_of_def results_of_def modify_entry_def final_ai_def send_def send_try_def send_begin_def
  send_catch_def send_finally_def placeholder_index_def trim_def error_text_def
  stream_failed_def failed_notice_def error_notice_def push_custom_def custom_text_def
  lists_call_def with_result_def after_events_def

section \<open>Properties of the stream decoder\<close>

subsection \<open>Splitting a growing buffer\<close>

lemma js_split_nonempty: "sep \<noteq> [] \<Longrightarrow> js_split s sep \<noteq> []"
  by (induction s sep rule: js_split.induct) (auto split: list.splits)

lemma js_split_single:
  "sep \<noteq> [] \<Longrightarrow> js_split s sep = [x] \<Longrightarrow> x = s"
proof (induction s sep arbitrary: x rule: js_split.induct)
  case (1 sep)
  then show ?case by simp
next
  case (2 c cs sep)
  from "2.prems" have ns: "\<not> startsWith (c # cs) sep"
    using js_split_nonempty[of sep "drop (length sep) (c # cs)"] by auto
  obtain p ps where r: "js_split cs sep = p # ps"
    using js_split_nonempty[OF "2.prems"(1), of cs] by (cases "js_split cs sep") auto
  with "2.prems" ns have "ps = []" "x = c # p" by auto
  with r "2.IH"(3)[OF "2.prems"(1) ns, of p] "2.prems"(1) show ?case by simp
qed

lemma startsWith_append:
  "length sep \<le> length a \<Longrightarrow> startsWith (a @ b) sep = startsWith a sep"
  by (simp add: startsWith_def)

lemma startsWith_short: "startsWith a sep \<Longrightarrow> length sep \<le> length a"
proof -
  assume "startsWith a sep"
  then have "length (take (length sep) a) = length sep" by (simp add: startsWith_def)
  then show ?thesis by simp
qed

lemma js_split_append:
  "sep \<noteq> [] \<Longrightarrow>
   js_split (a @ b) sep = butlast (js_split a sep) @ js_split (last (js_split a sep) @ b) sep"
proof (induction a sep rule: js_split.induct)
  case (1 sep)
  then show ?case by simp
next
  case (2 c cs sep)
  note ne = "2.prems"
  show ?case
  proof (cases "startsWith (c # cs) sep")
    case True
    then have sa: "startsWith ((c # cs) @ b) sep"
      using startsWith_append[of sep "c # cs" b] startsWith_short[OF True] by simp
    have "drop (length sep) ((c # cs) @ b) =
        drop (length sep) (c # cs) @ drop (length sep - length (c # cs)) b"
      by (rule drop_append)
    then have d: "drop (length sep) (c # (cs @ b)) = drop (length sep) (c # cs) @ b"
      using startsWith_short[OF True] by simp
    have "js_split ((c # cs) @ b) sep = js_split (c # (cs @ b)) sep" by simp
    also have "\<dots> = [] # js_split (drop (length sep) (c # (cs @ b))) sep"
      using sa ne by (simp del: drop_Suc_Cons)
    also have "\<dots> = [] # js_split (drop (length sep) (c # cs) @ b) sep"
      by (simp only: d)
    also have "\<dots> = [] # (butlast (js_split (drop (length sep) (c # cs)) sep) @
        js_split (last (js_split (drop (length sep) (c # cs)) sep) @ b) sep)"
      using "2.IH"(2)[OF ne True ne] by simp
    finally show ?thesis
      using True ne js_split_nonempty[OF ne, of "drop (length sep) (c # cs)"]
      by (simp add: js_split.simps(2)[of c cs sep] del: js_split.simps)
  next
    case False
    obtain p ps where r: "js_split cs sep = p # ps"
      using js_split_nonempty[OF ne, of cs] by (cases "js_split cs sep") auto
    show ?thesis
    proof (cases ps)
      case Nil
      then have "js_split (c # cs) sep = [c # p]" using False ne r by simp
      then have "js_split (c # cs) sep = [c # cs]"
        using js_split_single[OF ne] by blast
      then show ?thesis by simp
    next
      case (Cons q qs)
      have long: "length sep \<le> length (c # cs)"
      proof (rule ccontr)
        assume "\<not> length sep \<le> length (c # cs)"
        then have "length sep > length cs" by simp
        have "\<And>s. length s < length sep \<Longrightarrow> js_split s sep = [s]"
        proof -
          fix s show "length s < length sep \<Longrightarrow> js_split s sep = [s]"
          proof (induction s)
            case Nil then show ?case using ne by simp
          next
            case (Cons a s)
            then have "\<not> startsWith (a # s) sep" using startsWith_short by fastforce
            with Cons ne show ?case by simp
          qed
        qed
        from this[OF \<open>length sep > length cs\<close>] r Cons show False by simp
      qed
      have nsa: "\<not> startsWith ((c # cs) @ b) sep"
        using False startsWith_append[OF long] by simp
      have ih: "js_split (cs @ b) sep = butlast (p # ps) @ js_split (last (p # ps) @ b) sep"
        using "2.IH"(3)[OF ne False ne] r by simp
      have "js_split ((c # cs) @ b) sep =
          (case js_split (cs @ b) sep of [] \<Rightarrow> [[c]] | p' # ps' \<Rightarrow> (c # p') # ps')"
        using nsa ne by simp
      also have "\<dots> = (c # p) # butlast ps @ js_split (last ps @ b) sep"
        using ih Cons by simp
      finally show ?thesis using False ne r Cons by simp
    qed
  qed
qed


lemma decode_stream_append:
  "decode_stream d (a @ b) =
     (case decode_stream d a of (d1, t1) \<Rightarrow>
        (case decode_stream d1 b of (d2, t2) \<Rightarrow> (d2, t1 @ t2)))"
  by (induction a arbitrary: d) (auto split: prod.splits)

lemma process_chunks_append:
  "process_chunks parse f (xs @ ys) s =
     (case process_chunks parse f xs s of
        (s', Completed) \<Rightarrow> process_chunks parse f ys s'
      | (s', Returned) \<Rightarrow> (s', Returned)
      | (s', Threw e) \<Rightarrow> (s', Threw e))"
  by (induction xs arbitrary: s) (auto simp: Let_def split: option.splits prod.splits)

lemma read_loop_merge:
  "read_loop parse f (v1 # v2 # rest) fin d buf s =
   read_loop parse f ((v1 @ v2) # rest) fin d buf s"
proof -
  obtain d1 t1 where D1: "decode_stream d v1 = (d1, t1)" by fastforce
  obtain d2 t2 where D2: "decode_stream d1 v2 = (d2, t2)" by fastforce
  have D12: "decode_stream d (v1 @ v2) = (d2, t1 @ t2)"
    by (simp add: decode_stream_append D1 D2)
  define c1 where "c1 = js_split (buf @ t1) [10, 10]"
  define c2 where "c2 = js_split (last c1 @ t2) [10, 10]"
  have ne1: "c1 \<noteq> []" and ne2: "c2 \<noteq> []"
    by (simp_all add: c1_def c2_def js_split_nonempty)
  have sp: "js_split (buf @ t1 @ t2) [10, 10] = butlast c1 @ c2"
    using js_split_append[of "[10, 10]" "buf @ t1" t2] by (simp add: c1_def c2_def)
  obtain s1 r1 where P1: "process_chunks parse f (butlast c1) s = (s1, r1)" by fastforce
  obtain s2 r2 where P2: "process_chunks parse f (butlast c2) s1 = (s2, r2)" by fastforce
  define tail where "tail = (case r2 of
      Completed \<Rightarrow> read_loop parse f rest fin d2 (last c2) s2
    | Returned \<Rightarrow> (s2, None)
    | Threw e \<Rightarrow> (s2, Some e))"
  have L: "read_loop parse f (v1 # v2 # rest) fin d buf s =
      (case r1 of Completed \<Rightarrow> tail | Returned \<Rightarrow> (s1, None) | Threw e \<Rightarrow> (s1, Some e))"
    using D1 D2 P1 P2 ne1 ne2
    by (simp add: c1_def[symmetric] c2_def[symmetric] tail_def Let_def del: js_split.simps
        split: loop_exit.splits)
  have bl: "butlast (butlast c1 @ c2) = butlast c1 @ butlast c2"
    using ne2 by (simp add: butlast_append)
  have P12: "process_chunks parse f (butlast c1 @ butlast c2) s =
      (case r1 of Completed \<Rightarrow> (s2, r2) | Returned \<Rightarrow> (s1, Returned) | Threw e \<Rightarrow> (s1, Threw e))"
    by (simp add: process_chunks_append P1 P2 split: loop_exit.splits)
  have R: "read_loop parse f ((v1 @ v2) # rest) fin d buf s =
      (case r1 of Completed \<Rightarrow> tail | Returned \<Rightarrow> (s1, None) | Threw e \<Rightarrow> (s1, Some e))"
    using D12 ne2 P12
    by (simp add: sp bl tail_def Let_def del: js_split.simps split: loop_exit.splits)
  show ?thesis by (simp only: L R)
qed

lemma read_loop_empty_chunk:
  "js_split buf [10, 10] = [buf] \<Longrightarrow>
   read_loop parse f ([] # rest) fin d buf s = read_loop parse f rest fin d buf s"
  by (simp del: js_split.simps)

lemma read_loop_concat:
  "js_split buf [10, 10] = [buf] \<Longrightarrow>
   read_loop parse f vs fin d buf s = read_loop parse f (concat vs # []) fin d buf s"
proof (induction "length vs" arbitrary: vs rule: less_induct)
  case less
  show ?case
  proof (cases vs)
    case Nil
    then show ?thesis using read_loop_empty_chunk[OF less.prems, of parse f "[]"] by simp
  next
    case (Cons v1 tl1)
    show ?thesis
    proof (cases tl1)
      case Nil
      with Cons show ?thesis by simp
    next
      case (Cons v2 rest)
      have "read_loop parse f vs fin d buf s = read_loop parse f ((v1 @ v2) # rest) fin d buf s"
        using \<open>vs = v1 # tl1\<close> Cons read_loop_merge by simp
      also have "\<dots> = read_loop parse f (concat ((v1 @ v2) # rest) # []) fin d buf s"
        using less.hyps[of "(v1 @ v2) # rest"] less.prems \<open>vs = v1 # tl1\<close> Cons by simp
      finally show ?thesis using \<open>vs = v1 # tl1\<close> Cons by simp
    qed
  qed
qed

subsection \<open>The callback sees the emitted events in order\<close>

lemma deliver_total:
  "deliver parse (total_handler g) data s =
     (g (case parse data of Some obj \<Rightarrow> obj | None \<Rightarrow> Error bad_payload) s, None)"
  by (simp add: deliver_def total_handler_def split: option.splits)

lemma process_chunks_skip:
  "data_line b = None \<Longrightarrow> process_chunks parse f (b # bs) s = process_chunks parse f bs s"
  by simp

lemma process_chunks_done:
  "data_line b = Some l \<Longrightarrow> strip_data l = done_sentinel \<Longrightarrow>
   process_chunks parse f (b # bs) s = (s, Returned)"
  by simp

lemma process_chunks_event:
  "data_line b = Some l \<Longrightarrow> strip_data l \<noteq> done_sentinel \<Longrightarrow>
   process_chunks parse f (b # bs) s =
     (case deliver parse f (strip_data l) s of
        (s1, None) \<Rightarrow> process_chunks parse f bs s1
      | (s1, Some e) \<Rightarrow> (s1, Threw e))"
  by simp

lemma process_chunks_total_event:
  "data_line b = Some l \<Longrightarrow> strip_data l \<noteq> done_sentinel \<Longrightarrow>
   process_chunks parse (total_handler g) (b # bs) s =
     process_chunks parse (total_handler g) bs
       (g (case parse (strip_data l) of Some obj \<Rightarrow> obj | None \<Rightarrow> Error bad_payload) s)"
  by (simp add: deliver_total)

lemma process_chunks_observed:
  "process_chunks parse (total_handler g) blocks s =
     (fold g (fst (process_chunks parse record_event blocks [])) s,
      snd (process_chunks parse record_event blocks [])) \<and>
   process_chunks parse record_event blocks acc =
     (acc @ fst (process_chunks parse record_event blocks []),
      snd (process_chunks parse record_event blocks []))"
proof (induction blocks arbitrary: s acc)
  case Nil
  then show ?case by simp
next
  case (Cons b bs)
  show ?case
  proof (cases "data_line b")
    case None
    then show ?thesis using Cons[of s acc] by (simp only: process_chunks_skip)
  next
    case (Some l)
    show ?thesis
    proof (cases "strip_data l = done_sentinel")
      case True
      then show ?thesis using Some by (simp only: process_chunks_done) simp
    next
      case False
      define ev where
        "ev = (case parse (strip_data l) of Some obj \<Rightarrow> obj | None \<Rightarrow> Error bad_payload)"
      have 1: "process_chunks parse (total_handler g) (b # bs) s =
          process_chunks parse (total_handler g) bs (g ev s)"
        by (simp only: process_chunks_total_event[OF Some False] ev_def)
      have 2: "process_chunks parse record_event (b # bs) acc =
          process_chunks parse record_event bs (acc @ [ev])" for acc
        unfolding record_event_def
        by (simp only: process_chunks_total_event[OF Some False] ev_def)
      have 3: "process_chunks parse record_event bs (acc @ [ev]) =
          ((acc @ [ev]) @ fst (process_chunks parse record_event bs []),
           snd (process_chunks parse record_event bs []))" for acc
        using Cons[of s "acc @ [ev]"] by simp
      have 4: "process_chunks parse (total_handler g) bs (g ev s) =
          (fold g (fst (process_chunks parse record_event bs [])) (g ev s),
           snd (process_chunks parse record_event bs []))"
        using Cons[of "g ev s" acc] by simp
      show ?thesis
        using 3[of "[]"] by (simp only: 1 2 3[of acc] 4 fst_conv snd_conv append_Nil) simp
    qed
  qed
qed

lemma process_chunks_total_fold:
  "process_chunks parse (total_handler g) blocks s =
     (fold g (fst (process_chunks parse record_event blocks [])) s,
      snd (process_chunks parse record_event blocks []))"
  using process_chunks_observed[of parse g blocks s "[]"] by (rule conjunct1)

lemma process_chunks_record:
  "process_chunks parse record_event blocks acc =
     (acc @ fst (process_chunks parse record_event blocks []),
      snd (process_chunks parse record_event blocks []))"
  using process_chunks_observed[of parse "\<lambda>ev evs. evs" blocks "[]" acc] by (rule conjunct2)


lemma read_loop_observed:
  "read_loop parse (total_handler g) vs fin d buf s =
     (fold g (fst (read_loop parse record_event vs fin d buf [])) s,
      snd (read_loop parse record_event vs fin d buf [])) \<and>
   read_loop parse record_event vs fin d buf acc =
     (acc @ fst (read_loop parse record_event vs fin d buf []),
      snd (read_loop parse record_event vs fin d buf []))"
proof (induction vs arbitrary: d buf s acc)
  case Nil
  then show ?case by (simp split: stream_end.splits)
next
  case (Cons v vs)
  obtain d1 t1 where D: "decode_stream d v = (d1, t1)" by fastforce
  define blocks where "blocks = butlast (js_split (buf @ t1) [10, 10])"
  define buf' where "buf' =
    (if js_split (buf @ t1) [10, 10] = [] then [] else last (js_split (buf @ t1) [10, 10]))"
  obtain evs r where P: "process_chunks parse record_event blocks [] = (evs, r)" by fastforce
  have Pa: "process_chunks parse record_event blocks acc = (acc @ evs, r)"
    using process_chunks_record[of parse blocks acc] P by simp
  have Pg: "process_chunks parse (total_handler g) blocks s = (fold g evs s, r)"
    using process_chunks_total_fold[of parse g blocks s] P by simp
  have step: "read_loop parse h (v # vs) fin d buf t =
      (case r of Completed \<Rightarrow> read_loop parse h vs fin d1 buf' t'
       | Returned \<Rightarrow> (t', None) | Threw e \<Rightarrow> (t', Some e))"
    if "process_chunks parse h blocks t = (t', r)" for h :: "'c handler" and t t'
    using D that
    by (simp add: Let_def blocks_def[symmetric] buf'_def[symmetric] del: js_split.simps)
  note steps = step[OF Pg] step[OF Pa] step[OF P]
  show ?case
  proof (cases r)
    case Completed
    have "read_loop parse (total_handler g) vs fin d1 buf' (fold g evs s) =
        (fold g (fst (read_loop parse record_event vs fin d1 buf' [])) (fold g evs s),
         snd (read_loop parse record_event vs fin d1 buf' []))"
      using Cons[of d1 buf' "fold g evs s" acc] by (rule conjunct1)
    moreover have "read_loop parse record_event vs fin d1 buf' (acc @ evs) =
        ((acc @ evs) @ fst (read_loop parse record_event vs fin d1 buf' []),
         snd (read_loop parse record_event vs fin d1 buf' []))"
      using Cons[of d1 buf' s "acc @ evs"] by (rule conjunct2)
    moreover have "read_loop parse record_event vs fin d1 buf' evs =
        (evs @ fst (read_loop parse record_event vs fin d1 buf' []),
         snd (read_loop parse record_event vs fin d1 buf' []))"
      using Cons[of d1 buf' s evs] by (rule conjunct2)
    ultimately show ?thesis
      by (simp only: steps Completed loop_exit.case fst_conv snd_conv fold_append comp_apply
          append_assoc)
  next
    case Returned
    then show ?thesis by (simp add: steps del: read_loop.simps)
  next
    case (Threw e)
    then show ?thesis by (simp add: steps del: read_loop.simps)
  qed
qed

lemma streamChat_fold:
  "streamChat parse net (total_handler g) s =
     (fold g (emitted parse net) s, snd (streamChat parse net record_event []))"
  unfolding emitted_def streamChat_def
  by (auto split: fetch_result.splits option.splits
      simp: read_loop_observed[THEN conjunct1, of parse g])

subsection \<open>Chunk-boundary independence\<close>

text \<open>
  Claim C3. For every byte stream and every way of cutting it into network chunks, also inside
  the blank-line delimiter, inside a multi-byte UTF-8 character or inside the \<open>data:\<close>
  prefix, \<open>streamChat\<close> hands the same events to its callback, ends the same way and leaves
  the caller in the same state: two bodies whose chunks concatenate to the same bytes are
  decoded alike.
\<close>

theorem chunk_boundary_independence:
  assumes "body res = Some b" and "concat vs = concat (body_chunks b)"
  shows "streamChat parse (FetchResolved (res\<lparr>body := Some (b\<lparr>body_chunks := vs\<rparr>)\<rparr>)) f s =
           streamChat parse (FetchResolved res) f s \<and>
         emitted parse (FetchResolved (res\<lparr>body := Some (b\<lparr>body_chunks := vs\<rparr>)\<rparr>)) =
           emitted parse (FetchResolved res)"
proof -
  have init: "js_split [] [10, 10] = [[]]" by simp
  have eq: "read_loop parse g vs (body_end b) new_decoder [] t =
      read_loop parse g (body_chunks b) (body_end b) new_decoder [] t"
    for g :: "'c handler" and t
  proof -
    have "read_loop parse g vs (body_end b) new_decoder [] t =
        read_loop parse g [concat vs] (body_end b) new_decoder [] t"
      by (rule read_loop_concat[OF init])
    also have "\<dots> = read_loop parse g [concat (body_chunks b)] (body_end b) new_decoder [] t"
      by (simp only: assms(2))
    also have "\<dots> = read_loop parse g (body_chunks b) (body_end b) new_decoder [] t"
      by (rule read_loop_concat[OF init, symmetric])
    finally show ?thesis .
  qed
  have sc: "streamChat parse (FetchResolved (res\<lparr>body := Some (b\<lparr>body_chunks := vs\<rparr>)\<rparr>)) g t =
      streamChat parse (FetchResolved res) g t" for g :: "'c handler" and t
    using assms(1) by (simp add: streamChat_def stream_failed_def eq)
  show ?thesis by (simp only: sc emitted_def)
qed

theorem chunk_boundary_independence_witness:
  "concat cafe_pieces = concat cafe_whole \<and>
   emitted sample_parse (stream_of cafe_pieces EndOfStream) = [Token [104, 233]] \<and>
   emitted sample_parse (stream_of cafe_whole EndOfStream) = [Token [104, 233]]"
proof -
  let ?b = "\<lparr>body_chunks = cafe_whole, body_end = EndOfStream\<rparr>"
  let ?res = "\<lparr>ok = True, status = 200, body = Some ?b, res_text = None\<rparr>"
  have c: "concat cafe_pieces = concat (body_chunks ?b)"
    by (simp add: cafe_pieces_def cafe_whole_def ascii_bytes_def)
  have b: "body ?res = Some ?b" by simp
  have w: "emitted sample_parse (stream_of cafe_whole EndOfStream) = [Token [104, 233]]"
    by (simp add: eval_defs cafe_whole_def)
  have "emitted sample_parse (FetchResolved (?res\<lparr>body := Some (?b\<lparr>body_chunks := cafe_pieces\<rparr>)\<rparr>)) =
      emitted sample_parse (FetchResolved ?res)"
    using chunk_boundary_independence[OF b c, of sample_parse record_event "[]"] by (rule conjunct2)
  then have "emitted sample_parse (stream_of cafe_pieces EndOfStream) =
      emitted sample_parse (stream_of cafe_whole EndOfStream)"
    by (simp add: stream_of_def)
  with c w show ?thesis by simp
qed

subsection \<open>Sentinel precedence\<close>

text \<open>
  Claim C4. When a network chunk completes a block whose payload is \<open>[DONE]\<close>, \<open>streamChat\<close>
  returns at once, without an error: the callback has seen the events of the blocks before
  the sentinel (\<open>pre\<close>, which the loop went through to its end) and nothing else. The blocks
  after it in the same chunk (\<open>post\<close>), the rest of the buffer, the chunks not yet read
  (\<open>rest\<close>) and the way the stream would have ended (\<open>fin\<close>) have no effect.
\<close>

theorem sentinel_precedence:
  assumes "decode_stream d v = (d', txt)"
    and "butlast (js_split (buf @ txt) [10, 10]) = pre @ blk # post"
    and "block_payload blk = Some done_sentinel"
    and "snd (process_chunks parse f pre s) = Completed"
  shows "read_loop parse f (v # rest) fin d buf s = (fst (process_chunks parse f pre s), None)"
proof -
  obtain l where l: "data_line blk = Some l" "strip_data l = done_sentinel"
    using assms(3) by (auto simp: block_payload_def)
  obtain s1 where s1: "process_chunks parse f pre s = (s1, Completed)"
    using assms(4) by (cases "process_chunks parse f pre s") auto
  have "process_chunks parse f (pre @ blk # post) s = (s1, Returned)"
    by (simp only: process_chunks_append s1 process_chunks_done[OF l]) simp
  then show ?thesis
    using assms(1,2) s1 by (simp add: Let_def del: js_split.simps)
qed

theorem sentinel_precedence_witness:
  "streamChat sample_parse (stream_of done_early (ReadError sample_error)) record_event [] =
     ([Token (ascii ''He'')], None)"
proof -
  let ?v = \<open>ascii_bytes ''data: {"type":"token","content":"He"}'' @ [0x0A, 0x0A] @
      ascii_bytes ''data: [DONE]'' @ [0x0A, 0x0A] @
      ascii_bytes ''data: {"type":"token","content":"llo"}'' @ [0x0A, 0x0A] @
      ascii_bytes ''data: {"ty''\<close>
  let ?rest = \<open>[ascii_bytes ''pe":"token","content":"!"}'' @ [0x0A, 0x0A]]\<close>
  let ?txt = \<open>ascii ''data: {"type":"token","content":"He"}'' @ [10, 10] @
      ascii ''data: [DONE]'' @ [10, 10] @
      ascii ''data: {"type":"token","content":"llo"}'' @ [10, 10] @
      ascii ''data: {"ty''\<close>
  let ?pre = \<open>[ascii ''data: {"type":"token","content":"He"}'']\<close>
  let ?post = \<open>[ascii ''data: {"type":"token","content":"llo"}'']\<close>
  have D: "decode_stream new_decoder ?v = (new_decoder\<lparr>bom_seen := True\<rparr>, ?txt)"
    by (simp add: eval_defs)
  have B: "butlast (js_split ([] @ ?txt) [10, 10]) = ?pre @ ascii ''data: [DONE]'' # ?post"
    by (simp add: eval_defs)
  have P: "block_payload (ascii ''data: [DONE]'') = Some done_sentinel"
    by (simp add: eval_defs)
  have N: "snd (process_chunks sample_parse record_event ?pre []) = Completed"
    by (simp add: eval_defs)
  have "read_loop sample_parse record_event (?v # ?rest) (ReadError sample_error) new_decoder [] [] =
      (fst (process_chunks sample_parse record_event ?pre []), None)"
    by (rule sentinel_precedence[OF D B P N])
  moreover have "fst (process_chunks sample_parse record_event ?pre []) = [Token (ascii ''He'')]"
    by (simp add: eval_defs)
  ultimately show ?thesis
    by (simp add: streamChat_def stream_of_def done_early_def del: read_loop.simps)
qed

subsection \<open>Malformed payload isolation\<close>

text \<open>
  Claim C8. A block whose payload is not the sentinel and does not parse makes the decoder
  call the callback once, with the event \<open>Error "Bad SSE payload"\<close>, and, when that call
  returns, go on with the blocks after it exactly as if it had started there. For a callback
  that never throws, as the chat page's, and for the emitted events this reads: one \<open>Error\<close>
  event, then the events of the following blocks, and whether the loop returns is decided
  by these blocks alone.
\<close>

theorem malformed_payload_isolation:
  assumes "block_payload blk = Some p" and "p \<noteq> done_sentinel" and "parse p = None"
  shows "process_chunks parse f (blk # rest) s =
           (case f (Error bad_payload) s of
              (s1, None) \<Rightarrow> process_chunks parse f rest s1
            | (s1, Some e) \<Rightarrow> (s1, Threw e)) \<and>
         process_chunks parse (total_handler g) (blk # rest) t =
           process_chunks parse (total_handler g) rest (g (Error bad_payload) t) \<and>
         fst (process_chunks parse record_event (blk # rest) []) =
           Error bad_payload # fst (process_chunks parse record_event rest []) \<and>
         snd (process_chunks parse record_event (blk # rest) []) =
           snd (process_chunks parse record_event rest [])"
proof -
  obtain l where l: "data_line blk = Some l" "strip_data l = p"
    using assms(1) by (auto simp: block_payload_def)
  have ne: "strip_data l \<noteq> done_sentinel" using l assms(2) by simp
  have 1: "process_chunks parse h (blk # rest) u =
      (case h (Error bad_payload) u of
         (s1, None) \<Rightarrow> process_chunks parse h rest s1
       | (s1, Some e) \<Rightarrow> (s1, Threw e))" for h :: "'c handler" and u
    using process_chunks_event[OF l(1) ne, of parse h rest u] l(2) assms(3)
    by (simp add: deliver_def)
  have 2: "process_chunks parse (total_handler h) (blk # rest) u =
      process_chunks parse (total_handler h) rest (h (Error bad_payload) u)"
    for h :: "StreamEvent \<Rightarrow> 'c \<Rightarrow> 'c" and u
    using process_chunks_total_event[OF l(1) ne, of parse h rest u] l(2) assms(3) by simp
  have 3: "process_chunks parse record_event (blk # rest) [] =
      process_chunks parse record_event rest [Error bad_payload]"
    unfolding record_event_def by (simp only: 2 append_Nil)
  have 4: "process_chunks parse record_event rest [Error bad_payload] =
      ([Error bad_payload] @ fst (process_chunks parse record_event rest []),
       snd (process_chunks parse record_event rest []))"
    by (rule process_chunks_record)
  show ?thesis
    by (simp only: 1[of f s] 2[of g t] 3 4 fst_conv snd_conv) simp
qed

theorem malformed_payload_isolation_witness:
  \<open>fst (process_chunks sample_parse record_event
          [ascii ''data: oops'', ascii ''data: {"type":"token","content":"ok"}''] []) =
     [Error bad_payload, Token (ascii ''ok'')] \<and>
   snd (process_chunks sample_parse record_event
          [ascii ''data: oops'', ascii ''data: {"type":"token","content":"ok"}''] []) = Completed\<close>
proof -
  have P: "block_payload (ascii ''data: oops'') = Some (ascii ''oops'')"
    by (simp add: eval_defs)
  have N: "ascii ''oops'' \<noteq> done_sentinel" by (simp add: eval_defs)
  have S: "sample_parse (ascii ''oops'') = None" by (simp add: eval_defs)
  have R: \<open>process_chunks sample_parse record_event
      [ascii ''data: {"type":"token","content":"ok"}''] [] = ([Token (ascii ''ok'')], Completed)\<close>
    by (simp add: eval_defs)
  note M = malformed_payload_isolation[where parse = sample_parse and f = record_event
      and s = "[]" and g = "\<lambda>ev evs. evs" and t = "[]"
      and rest = \<open>[ascii ''data: {"type":"token","content":"ok"}'']\<close>, OF P N S]
  show ?thesis
    by (simp only: M[THEN conjunct2, THEN conjunct2, THEN conjunct1]
        M[THEN conjunct2, THEN conjunct2, THEN conjunct2] R fst_conv snd_conv simp_thms)
qed

subsection \<open>The data prefix\<close>

lemma startsWith_Cons_nl: "startsWith (c # cs) [10] = (c = 10)"
  by (auto simp: startsWith_def)

lemma js_split_no_nl: "10 \<notin> set l \<Longrightarrow> js_split l [10] = [l]"
  by (induction l) (auto simp: startsWith_Cons_nl)

lemma js_split_line:
  "10 \<notin> set l \<Longrightarrow> js_split (l @ 10 # rest) [10] = l # js_split rest [10]"
  by (induction l) (auto simp: startsWith_Cons_nl)

lemma js_split_lines:
  "list_all (\<lambda>l. 10 \<notin> set l) pre \<Longrightarrow>
   js_split (concat (map (\<lambda>l. l @ [10]) pre) @ rest) [10] = pre @ js_split rest [10]"
  by (induction pre) (simp_all add: js_split_line del: js_split.simps)

lemma trimEnd_spaces: "list_all is_js_space ws \<Longrightarrow> trimEnd (a @ ws) = trimEnd a"
proof -
  assume "list_all is_js_space ws"
  then have "dropWhile is_js_space (rev ws @ rev a) = dropWhile is_js_space (rev a)"
    by (intro dropWhile_append2) (simp add: list_all_iff)
  then show ?thesis by (simp add: trimEnd_def)
qed

lemma trimEnd_id: "a \<noteq> [] \<Longrightarrow> \<not> is_js_space (last a) \<Longrightarrow> trimEnd a = a"
  by (cases a rule: rev_cases) (simp_all add: trimEnd_def)

lemma data_prefix_eq: "data_prefix = [100, 97, 116, 97, 58]"
  by (simp add: data_prefix_def ascii_def)

lemma find_after_misses:
  "list_all (\<lambda>x. \<not> P x) xs \<Longrightarrow> P y \<Longrightarrow> find P (xs @ y # ys) = Some y"
  by (induction xs) simp_all

lemma trimEnd_after_prefix:
  assumes "x \<noteq> []" and "\<not> is_js_space (last x)"
  shows "trimEnd (x @ r) = x @ trimEnd r"
proof -
  have "dropWhile is_js_space (rev x) = rev x"
    using assms by (cases x rule: rev_cases) simp_all
  then have "dropWhile is_js_space (rev r @ rev x) = dropWhile is_js_space (rev r) @ rev x"
    by (simp add: dropWhile_append)
  then show ?thesis by (simp add: trimEnd_def)
qed

lemma trimEnd_Cons:
  "trimEnd (c # cs) = (if trimEnd cs = [] \<and> is_js_space c then [] else c # trimEnd cs)"
proof (cases "list_all is_js_space cs")
  case True
  then have "trimEnd ([c] @ cs) = trimEnd [c]" by (rule trimEnd_spaces)
  moreover have "trimEnd ([] @ cs) = trimEnd []" using True by (rule trimEnd_spaces)
  ultimately show ?thesis by (simp add: trimEnd_def)
next
  case False
  then have "dropWhile is_js_space (rev cs) \<noteq> []"
    by (simp add: list_all_iff dropWhile_eq_Nil_conv)
  then show ?thesis by (simp add: trimEnd_def dropWhile_append)
qed

lemma trimEnd_Nil_iff: "trimEnd r = [] \<longleftrightarrow> list_all is_js_space r"
  by (simp add: trimEnd_def dropWhile_eq_Nil_conv list_all_iff)

lemma dropWhile_trimEnd: "dropWhile is_js_space (trimEnd r) = trim r"
proof (induction r)
  case Nil
  then show ?case by (simp add: trim_def trimEnd_def)
next
  case (Cons c cs)
  show ?case
  proof (cases "is_js_space c")
    case False
    then show ?thesis by (simp add: trim_def trimEnd_Cons)
  next
    case True
    show ?thesis
    proof (cases "trimEnd cs = []")
      case empty: True
      then have d: "dropWhile is_js_space cs = []"
        by (simp add: trimEnd_Nil_iff list_all_iff dropWhile_eq_Nil_conv)
      have "trim (c # cs) = trimEnd (dropWhile is_js_space cs)"
        using True by (simp add: trim_def)
      also have "\<dots> = trimEnd []" by (simp only: d)
      also have "\<dots> = []" by (simp add: trimEnd_def)
      finally have "trim (c # cs) = []" .
      moreover have "trimEnd (c # cs) = []" using True empty by (simp add: trimEnd_Cons)
      ultimately show ?thesis by simp
    next
      case False
      then show ?thesis using True Cons by (simp add: trim_def trimEnd_Cons)
    qed
  qed
qed

lemma strip_trimmed_data_line: "strip_data (trimEnd (data_prefix @ r)) = trim r"
proof -
  have "trimEnd (data_prefix @ r) = data_prefix @ trimEnd r"
    by (rule trimEnd_after_prefix) (simp_all add: data_prefix_eq is_js_space_def)
  then show ?thesis by (simp add: strip_data_def startsWith_def dropWhile_trimEnd)
qed

text \<open>
  Claim C2, as the code has it. The decoder takes the first line of the block that, with the
  white space at its end trimmed, starts with \<open>data:\<close>, and strips that prefix together
  with all the white space that follows it, not one space only. The payload is the rest
  \<open>r\<close> of that line with the white space at both its ends removed. So \<open>data:  [DONE]\<close>
  yields the sentinel, also with a carriage return behind it.
\<close>

theorem data_prefix_strips_all_space:
  assumes "list_all (\<lambda>l. 10 \<notin> set l \<and> \<not> startsWith (trimEnd l) data_prefix) pre"
    and "10 \<notin> set r"
    and "post = [] \<or> hd post = 10"
  shows "block_payload (concat (map (\<lambda>l. l @ [10]) pre) @ data_prefix @ r @ post) =
           Some (trim r)"
proof -
  let ?line = "data_prefix @ r"
  have nl: "10 \<notin> set ?line" using assms(2) by (simp add: data_prefix_eq)
  have pre_nl: "list_all (\<lambda>l. 10 \<notin> set l) pre"
    using assms(1) by (simp add: list_all_iff)
  obtain more where sp: "js_split (?line @ post) [10] = ?line # more"
  proof (cases post)
    case Nil
    then show ?thesis using that[of "[]"] js_split_no_nl[OF nl] by simp
  next
    case (Cons c t)
    then have "c = 10" using assms(3) by simp
    then show ?thesis using that[of "js_split t [10]"] js_split_line[OF nl, of t] Cons by simp
  qed
  have "js_split (concat (map (\<lambda>l. l @ [10]) pre) @ ?line @ post) [10] = pre @ ?line # more"
    using js_split_lines[OF pre_nl, of "?line @ post"] sp by simp
  then have lines:
    "map trimEnd (js_split (concat (map (\<lambda>l. l @ [10]) pre) @ data_prefix @ r @ post) [10]) =
      map trimEnd pre @ trimEnd ?line # map trimEnd more"
    by simp
  have te: "trimEnd ?line = data_prefix @ trimEnd r"
    by (rule trimEnd_after_prefix) (simp_all add: data_prefix_eq is_js_space_def)
  have hit: "startsWith (trimEnd ?line) data_prefix"
    by (simp add: te startsWith_def)
  have miss: "list_all (\<lambda>l. \<not> startsWith l data_prefix) (map trimEnd pre)"
    using assms(1) by (simp add: list_all_iff)
  have "data_line (concat (map (\<lambda>l. l @ [10]) pre) @ data_prefix @ r @ post) =
      Some (trimEnd ?line)"
    unfolding data_line_def lines by (rule find_after_misses[OF miss hit])
  then show ?thesis by (simp add: block_payload_def strip_trimmed_data_line)
qed

theorem data_prefix_strips_all_space_witness:
  "block_payload (ascii ''event: end'' @ [10] @ ascii ''data:  [DONE]'' @ [13, 10] @
     ascii ''id: 7'') = Some done_sentinel \<and>
   trim ([32, 32] @ done_sentinel @ [13]) = done_sentinel"
proof -
  have 1: "list_all (\<lambda>l. 10 \<notin> set l \<and> \<not> startsWith (trimEnd l) data_prefix) [ascii ''event: end'']"
    by (simp add: eval_defs)
  have 2: "10 \<notin> set ([32, 32] @ done_sentinel @ [13])" by (simp add: eval_defs)
  have 3: "10 # ascii ''id: 7'' = [] \<or> hd (10 # ascii ''id: 7'') = 10" by simp
  have t: "trim ([32, 32] @ done_sentinel @ [13]) = done_sentinel"
    by (simp add: eval_defs trim_def)
  have e: "ascii ''event: end'' @ [10] @ ascii ''data:  [DONE]'' @ [13, 10] @ ascii ''id: 7'' =
      concat (map (\<lambda>l. l @ [10]) [ascii ''event: end'']) @ data_prefix @
      ([32, 32] @ done_sentinel @ [13]) @ 10 # ascii ''id: 7''"
    by (simp add: ascii_def data_prefix_def done_sentinel_def)
  have "block_payload (concat (map (\<lambda>l. l @ [10]) [ascii ''event: end'']) @ data_prefix @
      ([32, 32] @ done_sentinel @ [13]) @ 10 # ascii ''id: 7'') =
      Some (trim ([32, 32] @ done_sentinel @ [13]))"
    by (rule data_prefix_strips_all_space[OF 1 2 3])
  then show ?thesis by (simp only: e t simp_thms)
qed

text \<open>
  Claim C2 as stated fails: the payload of \<open>data:  [DONE]\<close>, with two spaces, is the
  sentinel and not \<open> [DONE]\<close>, and the stream ends there; the token event behind it is never
  emitted.
\<close>

theorem two_spaces_is_sentinel:
  "block_payload (ascii ''data:  [DONE]'') = Some done_sentinel \<and>
   block_payload (ascii ''data:  [DONE]'') \<noteq> Some (ascii '' [DONE]'') \<and>
   streamChat sample_parse (stream_of two_spaces EndOfStream) record_event [] = ([], None)"
  by (simp add: eval_defs two_spaces_def)

section \<open>Properties of the transcript\<close>

subsection \<open>Attaching a tool result\<close>

lemma attach_loop_hit:
  "lists_call t (msgs ! n) \<Longrightarrow>
   attach_loop msgs t r (Suc n) = Some (msgs[n := with_result t r (msgs ! n)])"
  by (auto simp: lists_call_def with_result_def Let_def)

lemma attach_loop_miss:
  "\<not> lists_call t (msgs ! n) \<Longrightarrow> attach_loop msgs t r (Suc n) = attach_loop msgs t r n"
  by (auto simp: lists_call_def Let_def)

lemma attach_loop_skip:
  "n \<le> m \<Longrightarrow> (\<And>j. n \<le> j \<Longrightarrow> j < m \<Longrightarrow> \<not> lists_call t (msgs ! j)) \<Longrightarrow>
   attach_loop msgs t r m = attach_loop msgs t r n"
proof (induction m)
  case 0
  then show ?case by simp
next
  case (Suc m)
  show ?case
  proof (cases "n = Suc m")
    case True
    then show ?thesis by simp
  next
    case False
    then have le: "n \<le> m" using Suc.prems(1) by simp
    have "attach_loop msgs t r (Suc m) = attach_loop msgs t r m"
      using Suc.prems(2)[of m] le by (intro attach_loop_miss) simp
    also have "\<dots> = attach_loop msgs t r n"
      using Suc.IH[OF le] Suc.prems(2) by simp
    finally show ?thesis .
  qed
qed

lemma attach_loop_found:
  assumes "list_all (\<lambda>m. \<not> lists_call t m) newer" and "lists_call t e"
  shows "attach_loop (older @ e # newer) t r (length (older @ e # newer)) =
           Some (older @ with_result t r e # newer)"
proof -
  let ?msgs = "older @ e # newer"
  have miss: "\<not> lists_call t (?msgs ! j)" if "Suc (length older) \<le> j" "j < length ?msgs" for j
  proof -
    have "?msgs ! j = newer ! (j - Suc (length older))"
      using that by (simp add: nth_append nth_Cons')
    moreover have "j - Suc (length older) < length newer" using that by simp
    ultimately show ?thesis using assms(1) by (simp add: list_all_length)
  qed
  have "attach_loop ?msgs t r (length ?msgs) = attach_loop ?msgs t r (Suc (length older))"
    by (rule attach_loop_skip) (use miss in simp_all)
  also have "\<dots> = Some (?msgs[length older := with_result t r (?msgs ! length older)])"
    by (rule attach_loop_hit) (simp add: assms(2))
  finally show ?thesis by simp
qed

lemma attach_loop_orphan:
  assumes "list_all (\<lambda>m. \<not> lists_call t m) msgs"
  shows "attach_loop msgs t r (length msgs) = None"
proof -
  have "attach_loop msgs t r (length msgs) = attach_loop msgs t r 0"
    by (rule attach_loop_skip) (use assms in \<open>simp_all add: list_all_length\<close>)
  then show ?thesis by simp
qed

lemma last_match_cases:
  "list_all (\<lambda>m. \<not> P m) xs \<or>
   (\<exists>older e newer. xs = older @ e # newer \<and> P e \<and> list_all (\<lambda>m. \<not> P m) newer)"
proof (induction xs rule: rev_induct)
  case Nil
  then show ?case by simp
next
  case (snoc x xs)
  show ?case
  proof (cases "P x")
    case True
    then have "xs @ [x] = xs @ x # [] \<and> P x \<and> list_all (\<lambda>m. \<not> P m) []" by simp
    then show ?thesis by blast
  next
    case False
    from snoc show ?thesis
    proof
      assume "list_all (\<lambda>m. \<not> P m) xs"
      then show ?thesis using False by simp
    next
      assume "\<exists>older e newer. xs = older @ e # newer \<and> P e \<and> list_all (\<lambda>m. \<not> P m) newer"
      then obtain older e newer where
        "xs = older @ e # newer" "P e" "list_all (\<lambda>m. \<not> P m) newer" by blast
      then have "xs @ [x] = older @ e # (newer @ [x]) \<and> P e \<and>
          list_all (\<lambda>m. \<not> P m) (newer @ [x])"
        using False by simp
      then show ?thesis by blast
    qed
  qed
qed

text \<open>
  What \<open>attachToolResult\<close> does, for every id and result: when \<open>e\<close> is the newest entry that
  lists the call, the assignment \<open>msg.toolResults[toolCallId] = result\<close> is carried out on \<open>e\<close>
  and nothing else changes; when no entry lists the call, a \<open>tool\<close> entry with the result as
  its content is pushed. One of the two cases always applies.
\<close>

lemma attachToolResult_cases:
  "(messages s = older @ e # newer \<and> lists_call t e \<and>
      list_all (\<lambda>m. \<not> lists_call t m) newer \<longrightarrow>
      attachToolResult str t r s = s\<lparr>messages := older @ with_result t r e # newer\<rparr>) \<and>
   (list_all (\<lambda>m. \<not> lists_call t m) (messages s) \<longrightarrow>
      attachToolResult str t r s =
        s\<lparr>next_uuid := Suc (next_uuid s),
          messages := messages s @
            [\<lparr>ui_id = next_uuid s, role = Tool,
              ui_content = (case r of JStr c \<Rightarrow> c | _ \<Rightarrow> str r),
              runId = None, toolCalls = None, toolResults = None\<rparr>]\<rparr>) \<and>
   (list_all (\<lambda>m. \<not> lists_call t m) (messages s) \<or>
    (\<exists>older e newer. messages s = older @ e # newer \<and> lists_call t e \<and>
       list_all (\<lambda>m. \<not> lists_call t m) newer))"
proof (intro conjI impI)
  assume a: "messages s = older @ e # newer \<and> lists_call t e \<and>
      list_all (\<lambda>m. \<not> lists_call t m) newer"
  then have "attach_loop (messages s) t r (length (messages s)) =
      Some (older @ with_result t r e # newer)"
    using attach_loop_found[of t newer e older r] by simp
  then show "attachToolResult str t r s = s\<lparr>messages := older @ with_result t r e # newer\<rparr>"
    by (simp add: attachToolResult_def)
next
  assume "list_all (\<lambda>m. \<not> lists_call t m) (messages s)"
  then have "attach_loop (messages s) t r (length (messages s)) = None"
    by (rule attach_loop_orphan)
  then show "attachToolResult str t r s =
      s\<lparr>next_uuid := Suc (next_uuid s),
        messages := messages s @
          [\<lparr>ui_id = next_uuid s, role = Tool,
            ui_content = (case r of JStr c \<Rightarrow> c | _ \<Rightarrow> str r),
            runId = None, toolCalls = None, toolResults = None\<rparr>]\<rparr>"
    by (simp add: attachToolResult_def uuid_def as_text_def)
next
  show "list_all (\<lambda>m. \<not> lists_call t m) (messages s) \<or>
    (\<exists>older e newer. messages s = older @ e # newer \<and> lists_call t e \<and>
       list_all (\<lambda>m. \<not> lists_call t m) newer)"
    by (rule last_match_cases)
qed

text \<open>
  The assignment stores the result under every id but \<open>__proto__\<close>; under that id a string
  result is stored nowhere, as long as the object inherits the setter of \<open>Object.prototype\<close>.
\<close>

lemma with_result_other_id:
  "t \<noteq> proto_key \<Longrightarrow> own (results_of (with_result t r e)) = (own (results_of e))(t \<mapsto> r)"
  by (simp add: with_result_def results_of_def set_property_def)

lemma with_result_proto_string:
  "reaches_proto_setter (results_of e) \<Longrightarrow> toolResults e \<noteq> None \<Longrightarrow>
   with_result proto_key (JStr c) e = e"
  by (auto simp: with_result_def results_of_def set_property_def proto_setter_def)

lemma attachToolResult_example:
  "own (results_of (messages (attachToolResult sample_stringify (ascii ''b'')
       (JStr (ascii ''42'')) asked_page) ! 0)) (ascii ''b'') = Some (JStr (ascii ''42'')) \<and>
   own (results_of (messages (attachToolResult sample_stringify (ascii ''b'')
       (JStr (ascii ''42'')) asked_page) ! 0)) (ascii ''a'') = None \<and>
   map ui_content (messages (attachToolResult sample_stringify (ascii ''z'')
       (JStr (ascii ''42'')) asked_page)) = [[], ascii ''hi'', ascii ''42'']"
  by (simp add: page_defs ascii_def Let_def)

text \<open>
  Claim C6, evaluated on the code. The transcript holds one \<open>ai\<close> entry, which lists a tool
  call with the id \<open>__proto__\<close>, and the result \<open>42\<close> of that call arrives. The loop finds the
  entry, but the assignment \<open>msg.toolResults["__proto__"] = result\<close> runs the setter of
  \<open>Object.prototype\<close>, which ignores a string: no property is stored, and the function
  returns before it would push a standalone entry. The page is left exactly as it was, so
  the result is lost.
\<close>

theorem attachToolResult_drops_proto_result:
  "lists_call proto_key (messages proto_page ! 0) \<and>
   length (messages proto_page) = 1 \<and>
   own (results_of (messages proto_page ! 0)) = Map.empty \<and>
   attachToolResult sample_stringify proto_key (JStr (ascii ''42'')) proto_page = proto_page"
  by (simp add: page_defs ascii_def Let_def)

subsection \<open>Loading a history\<close>

lemma loadHistory_results_empty_aux:
  "list_all (\<lambda>u. toolResults u = Some empty_object) ui \<Longrightarrow>
   list_all (\<lambda>u. toolResults u = Some empty_object) (fst (history_loop str ms ui s))"
  by (induction ms arbitrary: ui s) (simp_all add: toUiMessage_def uuid_def split: prod.splits)

lemma loadHistory_results_empty:
  "list_all (\<lambda>u. toolResults u = Some empty_object) (messages (loadHistory str res s))"
  using loadHistory_results_empty_aux[of "[]" str "case res of None \<Rightarrow> [] | Some ms \<Rightarrow> ms" s]
  by (cases "history_loop str (case res of None \<Rightarrow> [] | Some ms \<Rightarrow> ms) [] s")
    (simp add: loadHistory_def)

text \<open>
  Claim C1, evaluated on the code. A page that has just been mounted loads a history of an
  \<open>ai\<close> message listing the calls \<open>a\<close> and \<open>b\<close> followed by the tool result for \<open>b\<close>. The
  new transcript has one entry per message, in order, but the result is not in the
  \<open>toolResults\<close> of the \<open>ai\<close> entry: \<open>attachToolResult\<close> searched \<open>messages.value\<close>, which is
  still the previous transcript while the loop runs, and not the array \<open>ui\<close> being built
  (\<open>loadHistory_results_empty\<close>: no loaded entry ever holds a tool result).
\<close>

theorem loadHistory_drops_tool_result:
  "messages (loadHistory sample_stringify (Some tool_history) empty_page) =
     [\<lparr>ui_id = 0, role = Ai, ui_content = [], runId = Some (ascii ''run-1''),
       toolCalls = Some [search_call (ascii ''a''), search_call (ascii ''b'')],
       toolResults = Some empty_object\<rparr>,
      \<lparr>ui_id = 1, role = Tool, ui_content = ascii ''42'', runId = None,
       toolCalls = None, toolResults = Some empty_object\<rparr>] \<and>
   own (results_of (messages (loadHistory sample_stringify (Some tool_history) empty_page) ! 0))
     (ascii ''b'') = None"
  by (simp add: page_defs)

subsection \<open>The callback of send\<close>

lemma messages_modify_entry:
  "messages (modify_entry ph f s) = (messages s)[ph := f (messages s ! ph)]"
  by (simp add: modify_entry_def)

lemma loading_modify_entry: "loading (modify_entry ph f s) = loading s"
  by (simp add: modify_entry_def)

lemma map_update_same: "g y = g (xs ! i) \<Longrightarrow> map g (xs[i := y]) = map g xs"
proof (induction xs arbitrary: i)
  case Nil
  then show ?case by simp
next
  case (Cons x xs)
  then show ?case by (cases i) simp_all
qed

lemma roles_modify_entry:
  "(\<And>p. role (f p) = role p) \<Longrightarrow> map role (messages (modify_entry ph f s)) = map role (messages s)"
  by (simp add: modify_entry_def map_update_same)

lemma attach_loop_roles:
  "attach_loop msgs t r n = Some msgs' \<Longrightarrow> n \<le> length msgs \<Longrightarrow>
   map role msgs' = map role msgs"
proof (induction n)
  case 0
  then show ?case by simp
next
  case (Suc n)
  show ?case
  proof (cases "lists_call t (msgs ! n)")
    case True
    then have "msgs' = msgs[n := with_result t r (msgs ! n)]"
      using Suc.prems(1) attach_loop_hit[OF True, of r] by simp
    then show ?thesis
      by (simp add: map_update_same with_result_def)
  next
    case False
    then show ?thesis using Suc attach_loop_miss[OF False, of r] by simp
  qed
qed

lemma loading_attachToolResult: "loading (attachToolResult str t r s) = loading s"
  by (simp add: attachToolResult_def uuid_def split: option.splits)

lemma roles_attachToolResult:
  "\<exists>extra. map role (messages (attachToolResult str t r s)) = map role (messages s) @ extra \<and>
     list_all (\<lambda>x. x \<noteq> Ai) extra"
proof (cases "attach_loop (messages s) t r (length (messages s))")
  case None
  then have "map role (messages (attachToolResult str t r s)) = map role (messages s) @ [Tool]"
    by (simp add: attachToolResult_def uuid_def)
  then show ?thesis by (intro exI[of _ "[Tool]"]) simp
next
  case (Some msgs')
  then have "map role (messages (attachToolResult str t r s)) = map role (messages s) @ []"
    using attach_loop_roles[OF Some] by (simp add: attachToolResult_def)
  then show ?thesis by (intro exI[of _ "[]"]) simp
qed

lemma loading_onEvent: "loading (onEvent str ph ev s) = loading s"
  by (cases ev)
    (simp_all add: loading_modify_entry loading_attachToolResult push_custom_def uuid_def Let_def
      split: option.splits)

lemma role_final_ai: "role (final_ai str m p) = role p"
  by (simp add: final_ai_def)

lemma roles_onEvent:
  "\<exists>extra. map role (messages (onEvent str ph ev s)) = map role (messages s) @ extra \<and>
     list_all (\<lambda>x. x \<noteq> Ai) extra"
proof (cases ev)
  case (Token c)
  then have "map role (messages (onEvent str ph ev s)) = map role (messages s) @ []"
    by (simp add: roles_modify_entry)
  then show ?thesis by (intro exI[of _ "[]"]) simp
next
  case (Error c)
  then have "map role (messages (onEvent str ph ev s)) = map role (messages s) @ []"
    by (simp add: roles_modify_entry)
  then show ?thesis by (intro exI[of _ "[]"]) simp
next
  case (Message m)
  define s1 where "s1 = (if msg_type m = Ai then modify_entry ph (final_ai str m) s else s)"
  define s2 where "s2 = (case tool_result_id m of
      Some i \<Rightarrow> attachToolResult str i (content m) s1 | None \<Rightarrow> s1)"
  have r1: "map role (messages s1) = map role (messages s)"
    by (simp add: s1_def roles_modify_entry role_final_ai)
  obtain x2 where r2: "map role (messages s2) = map role (messages s1) @ x2"
      "list_all (\<lambda>x. x \<noteq> Ai) x2"
  proof (cases "tool_result_id m")
    case None
    then have "map role (messages s2) = map role (messages s1) @ []" by (simp add: s2_def)
    then show ?thesis using that[of "[]"] by simp
  next
    case (Some i)
    then show ?thesis using roles_attachToolResult[of str i "content m" s1] that
      by (auto simp: s2_def)
  qed
  have ev: "onEvent str ph ev s = (if msg_type m = Custom then push_custom str m s2 else s2)"
    unfolding Message s2_def s1_def by (simp add: Let_def)
  show ?thesis
  proof (cases "msg_type m = Custom")
    case True
    then have "map role (messages (onEvent str ph ev s)) = map role (messages s) @ (x2 @ [Custom])"
      using ev r1 r2 by (simp add: push_custom_def uuid_def)
    then show ?thesis using r2(2) by (intro exI[of _ "x2 @ [Custom]"]) simp
  next
    case False
    then show ?thesis using ev r1 r2 by auto
  qed
qed

lemma loading_fold_onEvent: "loading (fold (onEvent str ph) evs s) = loading s"
  by (induction evs arbitrary: s) (simp_all add: loading_onEvent)

lemma roles_fold_onEvent:
  "\<exists>extra. map role (messages (fold (onEvent str ph) evs s)) = map role (messages s) @ extra \<and>
     list_all (\<lambda>x. x \<noteq> Ai) extra"
proof (induction evs arbitrary: s)
  case Nil
  show ?case by (intro exI[of _ "[]"]) simp
next
  case (Cons ev evs)
  obtain x1 where 1: "map role (messages (onEvent str ph ev s)) = map role (messages s) @ x1"
      "list_all (\<lambda>x. x \<noteq> Ai) x1"
    using roles_onEvent by blast
  obtain x2 where 2: "map role (messages (fold (onEvent str ph) evs (onEvent str ph ev s))) =
      map role (messages (onEvent str ph ev s)) @ x2" "list_all (\<lambda>x. x \<noteq> Ai) x2"
    using Cons by blast
  show ?case using 1 2 by (intro exI[of _ "x1 @ x2"]) simp
qed

lemma messages_send_begin:
  "messages (send_begin txt s) = messages s @
     [\<lparr>ui_id = next_uuid s, role = Human, ui_content = txt,
       runId = None, toolCalls = None, toolResults = None\<rparr>,
      \<lparr>ui_id = Suc (next_uuid s), role = Ai, ui_content = [],
       runId = None, toolCalls = Some [], toolResults = Some empty_object\<rparr>]"
  by (simp add: send_begin_def uuid_def)

lemma loading_send_begin: "loading (send_begin txt s)"
  by (simp add: send_begin_def uuid_def)

lemma send_try_normal_form:
  "send_try parse str net s =
     send_catch (placeholder_index s)
       (after_events str s (emitted parse net), snd (streamChat parse net record_event []))"
  by (simp add: send_try_def after_events_def
      streamChat_fold[of parse net "onEvent str (placeholder_index s)"])

lemma send_reaches_stream:
  "trim (input s) \<noteq> [] \<Longrightarrow> \<not> loading s \<Longrightarrow> prepare_request env s = Inr (url, payload) \<Longrightarrow>
   send parse str env s = (send_finally (send_try parse str (fetch env url payload) s), None)"
  by (simp add: send_def)

lemma send_rejects:
  "trim (input s) \<noteq> [] \<Longrightarrow> \<not> loading s \<Longrightarrow> prepare_request env s = Inl e \<Longrightarrow>
   send parse str env s = (send_begin (trim (input s)) s, Some e)"
  by (simp add: send_def)

lemma length_fold_onEvent:
  "length (messages s) \<le> length (messages (fold (onEvent str ph) evs s))"
proof -
  obtain extra where "map role (messages (fold (onEvent str ph) evs s)) = map role (messages s) @ extra"
    using roles_fold_onEvent by blast
  then have "length (map role (messages (fold (onEvent str ph) evs s))) =
      length (map role (messages s) @ extra)" by simp
  then show ?thesis by simp
qed

lemma token_fold:
  "ph < length (messages s) \<Longrightarrow>
   messages (fold (onEvent str ph) (map Token cs) s) =
     (messages s)[ph := (messages s ! ph)\<lparr>ui_content := ui_content (messages s ! ph) @ concat cs\<rparr>]"
proof (induction cs arbitrary: s)
  case Nil
  then show ?case by simp
next
  case (Cons c cs)
  have "ph < length (messages (onEvent str ph (Token c) s))"
    using Cons.prems by (simp add: messages_modify_entry)
  from Cons.IH[OF this] Cons.prems show ?case
    by (simp add: messages_modify_entry)
qed
lemma streamed_page_messages:
  "messages streamed_page =
     [\<lparr>ui_id = 0, role = Human, ui_content = ascii ''hi'', runId = None, toolCalls = None,
       toolResults = None\<rparr>,
      \<lparr>ui_id = 1, role = Ai, ui_content = ascii ''Hello'', runId = None, toolCalls = Some [],
       toolResults = Some empty_object\<rparr>]"
  by (simp add: streamed_page_def page_defs is_js_space_def trimEnd_def ascii_def)

text \<open>
  Claim C7. Starting from the empty placeholder, after the token events \<open>c1 .. cN\<close> the
  content of the in-flight entry is \<open>c1 + ... + cN\<close>; and a \<open>send\<close> that reaches its stream,
  whose stream emits exactly these events and ends without an error, leaves that
  concatenation in the entry.
\<close>

theorem token_accumulation_order:
  "ui_content (messages (after_events str s (map Token cs)) ! placeholder_index s) = concat cs \<and>
   (trim (input s) \<noteq> [] \<and> \<not> loading s \<and> prepare_request env s = Inr (url, payload) \<and>
    emitted parse (fetch env url payload) = map Token cs \<and>
    snd (streamChat parse (fetch env url payload) record_event []) = None \<longrightarrow>
    ui_content (messages (fst (send parse str env s)) ! placeholder_index s) = concat cs)"
proof -
  have ph: "placeholder_index s < length (messages (send_begin (trim (input s)) s))"
    by (simp add: messages_send_begin placeholder_index_def)
  have 1: "ui_content (messages (after_events str s (map Token cs)) ! placeholder_index s) = concat cs"
    unfolding after_events_def token_fold[OF ph]
    using ph by (simp add: messages_send_begin placeholder_index_def nth_append)
  have 2: "ui_content (messages (fst (send parse str env s)) ! placeholder_index s) = concat cs"
    if "trim (input s) \<noteq> []" "\<not> loading s" "prepare_request env s = Inr (url, payload)"
      "emitted parse (fetch env url payload) = map Token cs"
      "snd (streamChat parse (fetch env url payload) record_event []) = None"
  proof -
    have "fst (send parse str env s) = send_finally (after_events str s (map Token cs))"
      using that send_reaches_stream[of s env url payload parse str]
      by (simp add: send_try_normal_form send_catch_def)
    then show ?thesis using 1 by (simp add: send_finally_def)
  qed
  show ?thesis using 1 2 by blast
qed

theorem token_accumulation_order_witness:
  "emitted sample_parse (stream_of hello_chunks EndOfStream) =
     map Token [ascii ''He'', ascii ''llo''] \<and>
   ui_content (messages (fst (send sample_parse sample_stringify hello_env typing_page)) ! 1) =
     ascii ''Hello''"
proof -
  let ?payload = "\<lparr>p_message = ascii ''hi'', p_thread_id = ascii ''t-1'', p_user_id = ascii ''u-1'',
      p_model = None, p_stream_tokens = True\<rparr>"
  have f: "fetch hello_env (ascii ''/stream'') ?payload = stream_of hello_chunks EndOfStream"
    by (simp add: hello_env_def)
  have e: "emitted sample_parse (stream_of hello_chunks EndOfStream) =
      map Token [ascii ''He'', ascii ''llo'']"
    by (simp add: eval_defs hello_chunks_def)
  have n: "snd (streamChat sample_parse (stream_of hello_chunks EndOfStream) record_event []) = None"
    by (simp add: eval_defs hello_chunks_def)
  have t: "trim (input typing_page) \<noteq> []" "\<not> loading typing_page"
    by (simp_all add: typing_page_def empty_page_def trim_def trimEnd_def is_js_space_def ascii_def)
  have r: "prepare_request hello_env typing_page = Inr (ascii ''/stream'', ?payload)"
    by (simp add: prepare_request_def stream_url_def hello_env_def typing_page_def empty_page_def
        trim_def trimEnd_def is_js_space_def ascii_def)
  have p: "placeholder_index typing_page = 1"
    by (simp add: placeholder_index_def typing_page_def empty_page_def)
  have "ui_content (messages (fst (send sample_parse sample_stringify hello_env typing_page)) !
      placeholder_index typing_page) = concat [ascii ''He'', ascii ''llo'']"
    using token_accumulation_order[of sample_stringify typing_page "[ascii ''He'', ascii ''llo'']"
        hello_env "ascii ''/stream''" ?payload sample_parse] e n t r f
    by simp
  then show ?thesis using e by (simp add: p ascii_def)
qed

text \<open>
  Claim C5. For a \<open>message\<close> event of role \<open>ai\<close>: a content that is a non-empty string
  replaces the content of the in-flight entry; an empty content leaves it as it is; in both
  cases \<open>run_id\<close> and \<open>tool_calls\<close> (the empty list when the field is absent) are copied onto
  the entry. No other entry changes.
\<close>

theorem authoritative_replacement:
  assumes "msg_type m = Ai" and "ph < length (messages s)"
  shows "(\<forall>c. content m = JStr c \<and> c \<noteq> [] \<longrightarrow>
            ui_content (messages (onEvent str ph (Message m) s) ! ph) = c) \<and>
         (content m = JStr [] \<longrightarrow>
            ui_content (messages (onEvent str ph (Message m) s) ! ph) = ui_content (messages s ! ph)) \<and>
         runId (messages (onEvent str ph (Message m) s) ! ph) = run_id m \<and>
         toolCalls (messages (onEvent str ph (Message m) s) ! ph) =
           Some (case tool_calls m of None \<Rightarrow> [] | Some tcs \<Rightarrow> tcs) \<and>
         length (messages (onEvent str ph (Message m) s)) = length (messages s) \<and>
         (\<forall>j. j \<noteq> ph \<longrightarrow> messages (onEvent str ph (Message m) s) ! j = messages s ! j)"
proof -
  have "onEvent str ph (Message m) s = modify_entry ph (final_ai str m) s"
    using assms(1) by (simp add: tool_result_id_def)
  then show ?thesis
    using assms(2) by (simp add: messages_modify_entry final_ai_def)
qed

theorem authoritative_replacement_witness:
  "ui_content (messages streamed_page ! 1) = ascii ''Hello'' \<and>
   ui_content (messages (onEvent sample_stringify 1 (Message final_msg) streamed_page) ! 1) =
     ascii ''Hello!'' \<and>
   runId (messages (onEvent sample_stringify 1 (Message final_msg) streamed_page) ! 1) =
     Some (ascii ''run-1'') \<and>
   toolCalls (messages (onEvent sample_stringify 1 (Message final_msg) streamed_page) ! 1) =
     Some [search_call (ascii ''a'')] \<and>
   ui_content (messages (onEvent sample_stringify 1
       (Message (final_msg\<lparr>content := JStr []\<rparr>)) streamed_page) ! 1) = ascii ''Hello''"
proof -
  have a: "msg_type final_msg = Ai" "msg_type (final_msg\<lparr>content := JStr []\<rparr>) = Ai"
    by (simp_all add: final_msg_def)
  have l: "1 < length (messages streamed_page)" by (simp add: streamed_page_messages)
  have c: "content final_msg = JStr (ascii ''Hello!'') \<and> ascii ''Hello!'' \<noteq> []"
    by (simp add: final_msg_def ascii_def)
  note A = authoritative_replacement[OF a(1) l, of sample_stringify]
  note B = authoritative_replacement[OF a(2) l, of sample_stringify]
  have 1: "ui_content (messages (onEvent sample_stringify 1 (Message final_msg) streamed_page) ! 1) =
      ascii ''Hello!''"
    using A c by blast
  have 2: "runId (messages (onEvent sample_stringify 1 (Message final_msg) streamed_page) ! 1) =
      Some (ascii ''run-1'')"
    using A by (simp add: final_msg_def)
  have 3: "toolCalls (messages (onEvent sample_stringify 1 (Message final_msg) streamed_page) ! 1) =
      Some [search_call (ascii ''a'')]"
    using A by (simp add: final_msg_def)
  have 4: "ui_content (messages (onEvent sample_stringify 1
       (Message (final_msg\<lparr>content := JStr []\<rparr>)) streamed_page) ! 1) =
      ui_content (messages streamed_page ! 1)"
    using B by simp
  show ?thesis using 1 2 3 4 by (simp add: streamed_page_messages)
qed

text \<open>
  Claim C10. A \<open>message\<close> event whose role is neither \<open>ai\<close> nor \<open>custom\<close>, and which is not a
  \<open>tool\<close> message with a \<open>tool_call_id\<close>, leaves the page as it is: no entry is appended and
  no field of any entry changes.
\<close>

theorem other_message_frame:
  assumes "msg_type m \<noteq> Ai" and "msg_type m \<noteq> Custom"
    and "msg_type m = Tool \<longrightarrow> tool_call_id m = None"
  shows "onEvent str ph (Message m) s = s"
  using assms by (simp add: tool_result_id_def)

theorem other_message_frame_witness:
  "onEvent sample_stringify 1 (Message human_msg) streamed_page = streamed_page \<and>
   onEvent sample_stringify 1 (Message ((tool_reply [])\<lparr>tool_call_id := None\<rparr>)) streamed_page =
     streamed_page"
proof -
  have 1: "onEvent sample_stringify 1 (Message human_msg) streamed_page = streamed_page"
    by (rule other_message_frame) (simp_all add: human_msg_def)
  have 2: "onEvent sample_stringify 1 (Message ((tool_reply [])\<lparr>tool_call_id := None\<rparr>))
      streamed_page = streamed_page"
    by (rule other_message_frame) (simp_all add: tool_reply_def)
  show ?thesis using 1 2 by simp
qed

subsection \<open>The busy flag\<close>

text \<open>
  When an accepted \<open>send\<close> reaches its \<open>try\<close> block: \<open>loading\<close> is set and exactly one empty
  \<open>ai\<close> placeholder (after the user's entry) is pushed before the stream is opened; after
  every prefix of the emitted events \<open>loading\<close> is still set and the entries added since are
  the user's entry, the placeholder and entries of other roles; whatever the stream did,
  \<open>send\<close> ends with the \<open>finally\<close> step, after which \<open>loading\<close> is false; an error thrown by
  \<open>streamChat\<close>, on opening the stream or on a read, is appended to the placeholder as a
  notice, and \<open>send\<close> rejects with nothing.
\<close>

lemma busy_flag_after_stream:
  assumes "trim (input s) \<noteq> []" and "\<not> loading s"
    and "prepare_request env s = Inr (url, payload)"
  shows "loading (after_events str s []) \<and>
         messages (after_events str s []) = messages s @
           [\<lparr>ui_id = next_uuid s, role = Human, ui_content = trim (input s),
             runId = None, toolCalls = None, toolResults = None\<rparr>,
            \<lparr>ui_id = Suc (next_uuid s), role = Ai, ui_content = [],
             runId = None, toolCalls = Some [], toolResults = Some empty_object\<rparr>] \<and>
         (\<forall>k. loading (after_events str s (take k (emitted parse (fetch env url payload)))) \<and>
              (\<exists>extra. map role (messages (after_events str s
                    (take k (emitted parse (fetch env url payload))))) =
                  map role (messages s) @ Human # Ai # extra \<and> list_all (\<lambda>r. r \<noteq> Ai) extra)) \<and>
         send parse str env s =
           (send_finally (send_catch (placeholder_index s)
              (after_events str s (emitted parse (fetch env url payload)),
               snd (streamChat parse (fetch env url payload) record_event []))), None) \<and>
         \<not> loading (fst (send parse str env s)) \<and>
         (\<exists>extra. map role (messages (fst (send parse str env s))) =
             map role (messages s) @ Human # Ai # extra \<and> list_all (\<lambda>r. r \<noteq> Ai) extra) \<and>
         (\<forall>e. snd (streamChat parse (fetch env url payload) record_event []) = Some e \<longrightarrow>
              ui_content (messages (fst (send parse str env s)) ! placeholder_index s) =
                ui_content (messages (after_events str s (emitted parse (fetch env url payload))) !
                  placeholder_index s) @
                failed_notice @ error_text e)"
proof -
  let ?ph = "placeholder_index s"
  let ?net = "fetch env url payload"
  have roles: "\<exists>extra. map role (messages (after_events str s evs)) =
      map role (messages s) @ Human # Ai # extra \<and> list_all (\<lambda>r. r \<noteq> Ai) extra" for evs
  proof -
    obtain extra where "map role (messages (after_events str s evs)) =
        map role (messages (send_begin (trim (input s)) s)) @ extra" "list_all (\<lambda>r. r \<noteq> Ai) extra"
      unfolding after_events_def using roles_fold_onEvent by blast
    then show ?thesis by (intro exI[of _ extra]) (simp add: messages_send_begin)
  qed
  have busy: "loading (after_events str s evs)" for evs
    by (simp add: after_events_def loading_fold_onEvent loading_send_begin)
  have nf: "send parse str env s =
      (send_finally (send_catch ?ph
        (after_events str s (emitted parse ?net), snd (streamChat parse ?net record_event []))),
       None)"
    using send_reaches_stream[OF assms, of parse str] by (simp add: send_try_normal_form)
  have ph: "?ph < length (messages (after_events str s evs))" for evs
  proof -
    have "length (messages (send_begin (trim (input s)) s)) \<le> length (messages (after_events str s evs))"
      unfolding after_events_def by (rule length_fold_onEvent)
    then show ?thesis by (simp add: messages_send_begin placeholder_index_def)
  qed
  have catch_roles: "map role (messages (send_catch ?ph (t, r))) = map role (messages t)" for t r
    by (cases r) (simp_all add: send_catch_def roles_modify_entry)
  have fin_roles: "map role (messages (fst (send parse str env s))) =
      map role (messages (after_events str s (emitted parse ?net)))"
    by (simp add: nf send_finally_def catch_roles)
  have notice: "ui_content (messages (fst (send parse str env s)) ! ?ph) =
      ui_content (messages (after_events str s (emitted parse ?net)) ! ?ph) @
      failed_notice @ error_text e"
    if "snd (streamChat parse ?net record_event []) = Some e" for e
    using that ph[of "emitted parse ?net"]
    by (simp add: nf send_finally_def send_catch_def messages_modify_entry)
  have quiet: "\<not> loading (fst (send parse str env s))"
    by (simp add: nf send_finally_def)
  have start: "loading (after_events str s []) \<and>
      messages (after_events str s []) = messages s @
        [\<lparr>ui_id = next_uuid s, role = Human, ui_content = trim (input s),
          runId = None, toolCalls = None, toolResults = None\<rparr>,
         \<lparr>ui_id = Suc (next_uuid s), role = Ai, ui_content = [],
          runId = None, toolCalls = Some [], toolResults = Some empty_object\<rparr>]"
    by (simp add: after_events_def messages_send_begin loading_send_begin)
  have fin: "\<exists>extra. map role (messages (fst (send parse str env s))) =
      map role (messages s) @ Human # Ai # extra \<and> list_all (\<lambda>r. r \<noteq> Ai) extra"
    using roles[of "emitted parse ?net"] by (simp only: fin_roles)
  have mid: "\<forall>k. loading (after_events str s (take k (emitted parse ?net))) \<and>
      (\<exists>extra. map role (messages (after_events str s (take k (emitted parse ?net)))) =
          map role (messages s) @ Human # Ai # extra \<and> list_all (\<lambda>r. r \<noteq> Ai) extra)"
    using busy roles by blast
  have note_all: "\<forall>e. snd (streamChat parse ?net record_event []) = Some e \<longrightarrow>
      ui_content (messages (fst (send parse str env s)) ! ?ph) =
        ui_content (messages (after_events str s (emitted parse ?net)) ! ?ph) @
        failed_notice @ error_text e"
    using notice by blast
  from start mid nf quiet fin note_all show ?thesis by (intro conjI) (elim conjE, assumption)+
qed

text \<open>
  A stream that delivers the token \<open>He\<close> and then fails a read, and a response of status 500:
  the flag is cleared, the failure is a notice behind what the placeholder held, and
  \<open>send\<close> rejects with nothing.
\<close>

lemma send_read_failure_example:
  "\<not> loading (fst (send sample_parse sample_stringify broken_env typing_page)) \<and>
   snd (send sample_parse sample_stringify broken_env typing_page) = None \<and>
   map role (messages (fst (send sample_parse sample_stringify broken_env typing_page))) =
     [Human, Ai] \<and>
   ui_content (messages (fst (send sample_parse sample_stringify broken_env typing_page)) ! 1) =
     ascii ''He'' @ failed_notice @ ascii ''network error''"
  by (simp add: page_defs eval_defs sample_error_def)

lemma send_init_failure_example:
  "\<not> loading (fst (send sample_parse sample_stringify error_env typing_page)) \<and>
   snd (send sample_parse sample_stringify error_env typing_page) = None \<and>
   ui_content (messages (fst (send sample_parse sample_stringify error_env typing_page)) ! 1) =
     failed_notice @ ascii ''Stream failed: 500 boom''"
  by (simp add: page_defs eval_defs decimal.simps)

text \<open>
  When a statement between the placeholder and the \<open>try\<close> block throws, \<open>send\<close> rejects with
  that error, and the page stays as \<open>send_begin\<close> left it: the busy flag set, the two entries
  pushed.
\<close>

lemma busy_flag_stays_set:
  assumes "trim (input s) \<noteq> []" and "\<not> loading s" and "prepare_request env s = Inl e"
  shows "send parse str env s = (send_begin (trim (input s)) s, Some e) \<and>
         loading (fst (send parse str env s))"
  using send_rejects[OF assms, of parse str] by (simp add: loading_send_begin)

text \<open>
  Claim C9, evaluated on the code. The user has typed \<open>hi\<close>, no send is in flight, and the
  key of the selected agent is a string with a lone surrogate. \<open>send\<close> sets \<open>loading\<close> and
  pushes its two entries; then \<open>encodeURIComponent\<close> throws \<open>URIError\<close> while the URL is
  built, before the \<open>try\<close> block is entered. Neither \<open>catch\<close> nor \<open>finally\<close> runs: \<open>send\<close>
  rejects with the error, the placeholder shows no notice, and \<open>loading\<close> stays true.
\<close>

theorem send_leaves_busy_flag_set:
  "trim (input surrogate_page) = ascii ''hi'' \<and>
   \<not> loading surrogate_page \<and>
   loading (fst (send sample_parse sample_stringify hello_env surrogate_page)) \<and>
   snd (send sample_parse sample_stringify hello_env surrogate_page) = Some uri_malformed \<and>
   map role (messages (fst (send sample_parse sample_stringify hello_env surrogate_page))) =
     [Human, Ai] \<and>
   ui_content (messages (fst (send sample_parse sample_stringify hello_env surrogate_page)) ! 1) = []"
  by (simp add: page_defs trimEnd_def is_js_space_def ascii_def)

end
